theory Spec2Isabelle
  imports Complex_Main "HOL-Library.Word" "HOL-Library.Sublist"
begin

section \<open>JavaScript strings\<close>

text \<open>
  A JavaScript string is a sequence of UTF-16 code units. \<^verbatim>\<open>split('')\<close>, indexing,
  \<^verbatim>\<open>includes\<close>, \<^verbatim>\<open>===\<close> and a regular expression without the \<^verbatim>\<open>u\<close> flag all
  work on code units, so a string is a list of 16-bit words here, and a "character" of the
  program is one code unit. String literals of the source outside ASCII are written as their
  code units, with the code points named beside them.
\<close>

type_synonym jsstring = "16 word list"

definition ascii :: "string \<Rightarrow> jsstring" where
  "ascii s = map of_char s"

text \<open>\<^verbatim>\<open>s.includes(pat)\<close>: \<^verbatim>\<open>pat\<close> occurs in \<^verbatim>\<open>s\<close> as a contiguous run.\<close>

fun js_includes :: "'a list \<Rightarrow> 'a list \<Rightarrow> bool" where
  "js_includes [] pat = (pat = [])"
| "js_includes (c # cs) pat = (prefix pat (c # cs) \<or> js_includes cs pat)"

text \<open>
  The class \<^verbatim>\<open>\s\<close> of a regular expression, which is also what \<^verbatim>\<open>trim()\<close> strips:
  the white space and line terminator code points of ECMAScript.
\<close>

definition is_space :: "16 word \<Rightarrow> bool" where
  "is_space c =
     (c = 0x09 \<or> c = 0x0A \<or> c = 0x0B \<or> c = 0x0C \<or> c = 0x0D \<or> c = 0x20 \<or> c = 0xA0 \<or>
      c = 0x1680 \<or> (0x2000 \<le> c \<and> c \<le> 0x200A) \<or> c = 0x2028 \<or> c = 0x2029 \<or>
      c = 0x202F \<or> c = 0x205F \<or> c = 0x3000 \<or> c = 0xFEFF)"

definition trim :: "jsstring \<Rightarrow> jsstring" where
  "trim s = rev (dropWhile is_space (rev (dropWhile is_space s)))"

section \<open>SimilarityGate: \<^verbatim>\<open>calculateSimilarity\<close> and \<^verbatim>\<open>playTTS\<close>\<close>

text \<open>
  A JavaScript \<^verbatim>\<open>Set\<close> keeps its elements once each, in insertion order: a list
  without duplicates. \<^verbatim>\<open>new Set(xs)\<close> adds the elements of \<^verbatim>\<open>xs\<close> one by one,
  \<^verbatim>\<open>[...s]\<close> is the list itself, \<^verbatim>\<open>s.has(x)\<close> is membership and \<^verbatim>\<open>s.size\<close> the length.
\<close>

definition set_add :: "'a list \<Rightarrow> 'a \<Rightarrow> 'a list" where
  "set_add s x = (if x \<in> set s then s else s @ [x])"

definition new_Set :: "'a list \<Rightarrow> 'a list" where
  "new_Set xs = foldl set_add [] xs"

text \<open>
  \<^verbatim>\<open>calculateSimilarity\<close> divides two set sizes. Both are integers below \<open>2^17\<close>, the
  quotient of the source is the correctly rounded binary64 value of the exact quotient, and
  rounding is monotone and fixes \<open>0\<close>, \<open>1/4\<close> and \<open>1\<close>: the comparison with \<open>0.25\<close> in
  \<^verbatim>\<open>playTTS\<close> and equalities between two such quotients are those of the exact
  rational, which is the value modelled.
\<close>

definition calculateSimilarity :: "jsstring \<Rightarrow> jsstring \<Rightarrow> rat" where
  "calculateSimilarity s1 s2 =
     (if s1 = [] \<or> s2 = [] then 0
      else if s1 = s2 then 1
      else
        let set1 = new_Set s1;
            set2 = new_Set s2;
            intersection = new_Set (filter (\<lambda>x. x \<in> set set2) set1);
            union = new_Set (set1 @ set2)
        in of_nat (length intersection) / of_nat (length union))"

text \<open>
  The speech state the component reads and writes: the smart-speech switch, the speaking
  flag, the text being spoken (\<^verbatim>\<open>currentSpeakingTextRef\<close>) and the utterances handed to
  the speech synthesizer and not cancelled.
\<close>

record speech_state =
  isSmartSpeech :: bool
  isSpeaking :: bool
  currentSpeakingText :: jsstring
  utterances :: "jsstring list"

text \<open>The placeholder and sentinel literals of \<^verbatim>\<open>playTTS\<close>.\<close>

definition recognizing_text :: jsstring where
  \<comment> \<open>U+6B63 U+5728 U+8FA8 U+8B58, "recognition in progress"\<close>
  "recognizing_text = [0x6B63, 0x5728, 0x8FA8, 0x8B58]"

definition failed_text :: jsstring where
  \<comment> \<open>U+8FA8 U+8B58 U+5931 U+6557, "recognition failed"\<close>
  "failed_text = [0x8FA8, 0x8B58, 0x5931, 0x6557]"

definition no_text :: jsstring where
  \<comment> \<open>U+7121 U+6587 U+5B57, the "no text" sentinel\<close>
  "no_text = [0x7121, 0x6587, 0x5B57]"

definition stopAllSpeech :: "speech_state \<Rightarrow> speech_state" where
  "stopAllSpeech st = st\<lparr>utterances := [], isSpeaking := False, currentSpeakingText := []\<rparr>"

text \<open>
  \<^verbatim>\<open>playTTS\<close> returns nothing; the model returns whether it reached
  \<^verbatim>\<open>speechSynthesis.speak\<close> (playback is started) together with the state it leaves.
  The two early \<^verbatim>\<open>return\<close>s of the source are the two \<open>False\<close> branches. The events
  of the utterance, which set the flag and the spoken text once the synthesizer starts
  and clear them when it ends, arrive after the call and are not part of it.
\<close>

definition playTTS :: "jsstring \<Rightarrow> bool \<Rightarrow> speech_state \<Rightarrow> bool \<times> speech_state" where
  "playTTS text force st =
     (if text = [] \<or> js_includes text recognizing_text \<or> js_includes text failed_text \<or>
         text = no_text
      then (False, st)
      else if isSmartSpeech st \<and> isSpeaking st \<and> \<not> force \<and>
              calculateSimilarity text (currentSpeakingText st) \<ge> 1 / 4
      then (False, st)
      else
        let st' = stopAllSpeech st
        in (True, st'\<lparr>utterances := utterances st' @ [text]\<rparr>))"

section \<open>TextCleaner: \<^verbatim>\<open>cleanOcrText\<close>\<close>

text \<open>
  Step 1, \<^verbatim>\<open>text.replace(/[|\\_~^`]/g, '')\<close>: every occurrence of one of the six
  noise characters is deleted.
\<close>

definition is_noise :: "16 word \<Rightarrow> bool" where
  \<comment> \<open>vertical bar, backslash, underscore, tilde, circumflex, backtick\<close>
  "is_noise c = (c = 0x7C \<or> c = 0x5C \<or> c = 0x5F \<or> c = 0x7E \<or> c = 0x5E \<or> c = 0x60)"

definition strip_noise :: "jsstring \<Rightarrow> jsstring" where
  "strip_noise text = filter (\<lambda>c. \<not> is_noise c) text"

text \<open>
  Step 2, the scan. \<^verbatim>\<open>chineseCharPattern\<close> is the range U+4E00 to U+9FA5, and
  \<^verbatim>\<open>isSpecialSymbol\<close> tests the negated class of that range, \<^verbatim>\<open>a-zA-Z0-9\<close>,
  \<^verbatim>\<open>\s\<close> and a list of punctuation marks, which are, in the order of the source:
  U+FF0C U+3002 U+FF01 (fullwidth comma, ideographic full stop, fullwidth exclamation
  mark), the ASCII question mark U+003F, U+FF1F U+FF1A U+FF1B (fullwidth question mark,
  colon, semicolon), U+FF08 U+FF09 (fullwidth parentheses) and U+300C U+300D U+300E
  U+300F (corner brackets and white corner brackets).
\<close>

definition chineseCharPattern :: "16 word \<Rightarrow> bool" where
  "chineseCharPattern c = (0x4E00 \<le> c \<and> c \<le> 0x9FA5)"

definition is_alnum :: "16 word \<Rightarrow> bool" where
  "is_alnum c = ((0x61 \<le> c \<and> c \<le> 0x7A) \<or> (0x41 \<le> c \<and> c \<le> 0x5A) \<or> (0x30 \<le> c \<and> c \<le> 0x39))"

definition allowed_punct :: "16 word \<Rightarrow> bool" where
  "allowed_punct c =
     (c = 0xFF0C \<or> c = 0x3002 \<or> c = 0xFF01 \<or> c = 0x3F \<or> c = 0xFF1F \<or> c = 0xFF1A \<or>
      c = 0xFF1B \<or> c = 0xFF08 \<or> c = 0xFF09 \<or> c = 0x300C \<or> c = 0x300D \<or> c = 0x300E \<or>
      c = 0x300F)"

definition isSpecialSymbol :: "16 word \<Rightarrow> bool" where
  "isSpecialSymbol c =
     (\<not> (chineseCharPattern c \<or> is_alnum c \<or> is_space c \<or> allowed_punct c))"

text \<open>
  \<^verbatim>\<open>chars[j]\<close> for an integer \<^verbatim>\<open>j\<close>: \<^verbatim>\<open>undefined\<close> (here \<open>None\<close>) outside the array,
  which is what \<^verbatim>\<open>chars[i - 1]\<close> is at \<^verbatim>\<open>i = 0\<close> and \<^verbatim>\<open>chars[i + 1]\<close> at the last
  index. A one-character string is truthy, \<^verbatim>\<open>undefined\<close> is not.
\<close>

definition js_index :: "'a list \<Rightarrow> int \<Rightarrow> 'a option" where
  "js_index xs j = (if 0 \<le> j \<and> j < int (length xs) then Some (xs ! nat j) else None)"

definition skip_char :: "jsstring \<Rightarrow> nat \<Rightarrow> bool" where
  "skip_char chars i =
     (case (js_index chars (int i - 1), js_index chars (int i), js_index chars (int i + 1)) of
        (Some prv, Some cur, Some nxt) \<Rightarrow>
          isSpecialSymbol cur \<and> chineseCharPattern prv \<and> chineseCharPattern nxt
      | _ \<Rightarrow> False)"

text \<open>The \<^verbatim>\<open>for\<close> loop over the indices, with the \<^verbatim>\<open>result\<close> array as accumulator.\<close>

function scan_loop :: "jsstring \<Rightarrow> nat \<Rightarrow> jsstring \<Rightarrow> jsstring" where
  "scan_loop chars i result =
     (if i < length chars then
        (if skip_char chars i then scan_loop chars (i + 1) result
         else scan_loop chars (i + 1) (result @ [chars ! i]))
      else result)"
  by pat_completeness auto
termination
  by (relation "measure (\<lambda>(chars, i, result). length chars - i)") auto

declare scan_loop.simps [simp del]

definition scan :: "jsstring \<Rightarrow> jsstring" where
  "scan cleaned = scan_loop cleaned 0 []"

text \<open>
  Step 3, \<^verbatim>\<open>replace(/([!...])\1+/g, '$1')\<close> over the class of U+0021 U+FF01 U+003F
  U+FF1F U+002C U+FF0C U+002E U+3002. The global replace goes from left to right: where
  a character of the class is followed by a copy of itself, the greedy \<^verbatim>\<open>\1+\<close> takes the
  whole run of copies, one character is written and matching resumes after the run;
  elsewhere the character is copied.
\<close>

definition is_repeatable :: "16 word \<Rightarrow> bool" where
  "is_repeatable c =
     (c = 0x21 \<or> c = 0xFF01 \<or> c = 0x3F \<or> c = 0xFF1F \<or> c = 0x2C \<or> c = 0xFF0C \<or>
      c = 0x2E \<or> c = 0x3002)"

function collapse_punct :: "jsstring \<Rightarrow> jsstring" where
  "collapse_punct [] = []"
| "collapse_punct (c # cs) =
     (if is_repeatable c \<and> js_index cs 0 = Some c
      then c # collapse_punct (dropWhile (\<lambda>d. d = c) cs)
      else c # collapse_punct cs)"
  by pat_completeness auto
termination
  by (relation "measure length") (auto simp: le_imp_less_Suc length_dropWhile_le)

text \<open>
  Step 4 is three operations. \<^verbatim>\<open>replace(/[ ]+/g, ' ')\<close> writes one space for every
  maximal run of spaces (U+0020).
\<close>

function collapse_spaces :: "jsstring \<Rightarrow> jsstring" where
  "collapse_spaces [] = []"
| "collapse_spaces (c # cs) =
     (if c = 0x20 then 0x20 # collapse_spaces (dropWhile (\<lambda>d. d = 0x20) cs)
      else c # collapse_spaces cs)"
  by pat_completeness auto
termination
  by (relation "measure length") (auto simp: le_imp_less_Suc length_dropWhile_le)

text \<open>
  \<^verbatim>\<open>replace(/\n\s*\n/g, '\n')\<close>: at a line feed, the greedy \<^verbatim>\<open>\s*\<close> takes the whole
  run of white space that follows and backtracks to the last line feed of that run. When
  the run has a line feed, the match ends there, one line feed is written and matching
  resumes after it; when it has none there is no match at this position and the line feed
  is copied.
\<close>

definition after_last_lf :: "jsstring \<Rightarrow> jsstring" where
  "after_last_lf ws = rev (takeWhile (\<lambda>d. d \<noteq> 0x0A) (rev ws))"

function collapse_blank :: "jsstring \<Rightarrow> jsstring" where
  "collapse_blank [] = []"
| "collapse_blank (c # cs) =
     (if c = 0x0A \<and> 0x0A \<in> set (takeWhile is_space cs)
      then 0x0A # collapse_blank (after_last_lf (takeWhile is_space cs) @ dropWhile is_space cs)
      else c # collapse_blank cs)"
  by pat_completeness auto
termination
proof (relation "measure length")
  fix c :: "16 word" and cs :: jsstring
  have "length (after_last_lf (takeWhile is_space cs)) \<le> length (takeWhile is_space cs)"
    unfolding after_last_lf_def using length_takeWhile_le [of _ "rev (takeWhile is_space cs)"]
    by simp
  moreover have "length (takeWhile is_space cs) + length (dropWhile is_space cs) = length cs"
    by (metis length_append takeWhile_dropWhile_id)
  ultimately show
    "(after_last_lf (takeWhile is_space cs) @ dropWhile is_space cs, c # cs) \<in> measure length"
    by simp
qed simp_all

definition cleanOcrText :: "jsstring \<Rightarrow> jsstring" where
  "cleanOcrText text =
     (if text = [] then []
      else trim (collapse_blank (collapse_spaces (collapse_punct (scan (strip_noise text))))))"

text \<open>
  What each of the three replacements skips after it has copied the character \<open>c\<close> in front
  of the text \<open>cs\<close>: the text at which it resumes.
\<close>

definition punct_rest :: "16 word \<Rightarrow> jsstring \<Rightarrow> jsstring" where
  "punct_rest c cs = (if is_repeatable c then dropWhile (\<lambda>d. d = c) cs else cs)"

definition space_rest :: "16 word \<Rightarrow> jsstring \<Rightarrow> jsstring" where
  "space_rest c cs = (if c = 0x20 then dropWhile (\<lambda>d. d = 0x20) cs else cs)"

definition blank_rest :: "16 word \<Rightarrow> jsstring \<Rightarrow> jsstring" where
  "blank_rest c cs =
     (if c = 0x0A \<and> 0x0A \<in> set (takeWhile is_space cs)
      then after_last_lf (takeWhile is_space cs) @ dropWhile is_space cs
      else cs)"

text \<open>
  The allowed punctuation as the specification lists it: fullwidth comma, full stop,
  exclamation mark, question mark, colon and semicolon, the parenthesis pair and the two
  quotation-bracket pairs. It is \<open>allowed_punct\<close> without the ASCII question mark.
\<close>

definition spec_allowed_punct :: "16 word \<Rightarrow> bool" where
  "spec_allowed_punct c =
     (c = 0xFF0C \<or> c = 0x3002 \<or> c = 0xFF01 \<or> c = 0xFF1F \<or> c = 0xFF1A \<or> c = 0xFF1B \<or>
      c = 0xFF08 \<or> c = 0xFF09 \<or> c = 0x300C \<or> c = 0x300D \<or> c = 0x300E \<or> c = 0x300F)"

definition spec_isolated_symbol :: "jsstring \<Rightarrow> nat \<Rightarrow> bool" where
  "spec_isolated_symbol chars i =
     (0 < i \<and> i + 1 < length chars \<and>
      \<not> chineseCharPattern (chars ! i) \<and> \<not> is_alnum (chars ! i) \<and> \<not> is_space (chars ! i) \<and>
      \<not> spec_allowed_punct (chars ! i) \<and>
      chineseCharPattern (chars ! (i - 1)) \<and> chineseCharPattern (chars ! (i + 1)))"

text \<open>
  A symbol in the sense of the specification's invariant for cleaned text: not an
  ideograph, not a Latin letter or digit, not white space and not one of the allowed
  punctuation marks that the specification lists.
\<close>

definition spec_special_symbol :: "16 word \<Rightarrow> bool" where
  "spec_special_symbol c =
     (\<not> chineseCharPattern c \<and> \<not> is_alnum c \<and> \<not> is_space c \<and> \<not> spec_allowed_punct c)"

text \<open>
  The scan again, as a recursion on the text that carries the previous character of the
  array along (\<open>None\<close> before the first one). It is shown below to compute what the loop
  computes.
\<close>

fun scan_from :: "16 word option \<Rightarrow> jsstring \<Rightarrow> jsstring" where
  "scan_from p [] = []"
| "scan_from p (c # cs) =
     (if isSpecialSymbol c \<and> (case p of None \<Rightarrow> False | Some a \<Rightarrow> chineseCharPattern a) \<and>
         (case cs of [] \<Rightarrow> False | d # ds \<Rightarrow> chineseCharPattern d)
      then scan_from (Some c) cs
      else c # scan_from (Some c) cs)"

text \<open>
  The properties of a cleaned text, as predicates on a string that compute: a character
  of a given kind directly between two ideographs, and in particular a special symbol
  there; a character of the repeatable punctuation followed by a copy of itself; two
  spaces in a row; two line feeds with nothing but white space between them (a blank
  line).
\<close>

fun has_between :: "(16 word \<Rightarrow> bool) \<Rightarrow> jsstring \<Rightarrow> bool" where
  "has_between Q (a # b # c # cs) =
     ((chineseCharPattern a \<and> Q b \<and> chineseCharPattern c) \<or> has_between Q (b # c # cs))"
| "has_between Q cs = False"

definition has_isolated_symbol :: "jsstring \<Rightarrow> bool" where
  "has_isolated_symbol s = has_between isSpecialSymbol s"

fun has_punct_run :: "jsstring \<Rightarrow> bool" where
  "has_punct_run (a # b # cs) = ((is_repeatable a \<and> b = a) \<or> has_punct_run (b # cs))"
| "has_punct_run cs = False"

fun has_space_run :: "jsstring \<Rightarrow> bool" where
  "has_space_run (a # b # cs) = ((a = 0x20 \<and> b = 0x20) \<or> has_space_run (b # cs))"
| "has_space_run cs = False"

fun has_blank_line :: "jsstring \<Rightarrow> bool" where
  "has_blank_line [] = False"
| "has_blank_line (c # cs) =
     ((c = 0x0A \<and> 0x0A \<in> set (takeWhile is_space cs)) \<or> has_blank_line cs)"

section \<open>ImageNormalizer: the contrast loop of \<^verbatim>\<open>preprocessImage\<close>\<close>

text \<open>
  \<^verbatim>\<open>imageData.data\<close> is a \<^verbatim>\<open>Uint8ClampedArray\<close>, four bytes (red, green, blue, alpha)
  for each pixel. Reading past its end gives \<^verbatim>\<open>undefined\<close>, which arithmetic turns into
  \<^verbatim>\<open>NaN\<close>; a number of the loop is a rational or \<open>None\<close> for \<^verbatim>\<open>NaN\<close>. Storing
  a number into the array converts it to a byte (ToUint8Clamp of ECMAScript: \<^verbatim>\<open>NaN\<close> is
  0, the value is clamped to 0..255 and rounded to the nearest integer, a tie to the even
  one), and a store past the end is ignored.

  The source computes in binary64. The sum of three bytes is an integer \<open>s \<le> 765\<close>; the
  rounded \<open>s / 3\<close> is below 120 exactly when \<open>s < 360\<close>; and the rounded \<open>s / 3 \<plusminus> 40\<close>
  differs from the exact value, a multiple of \<open>1/3\<close>, by far less than the \<open>1/6\<close> that
  separates such a value from the nearest tie. So the branch taken and every byte stored
  are those of the exact arithmetic below.
\<close>

type_synonym pixel_data = "8 word list"

definition data_get :: "pixel_data \<Rightarrow> nat \<Rightarrow> rat option" where
  "data_get data j = (if j < length data then Some (of_nat (unat (data ! j))) else None)"

definition average3 :: "rat option \<Rightarrow> rat option \<Rightarrow> rat option \<Rightarrow> rat option" where
  "average3 r g b =
     (case (r, g, b) of (Some x, Some y, Some z) \<Rightarrow> Some ((x + y + z) / 3) | _ \<Rightarrow> None)"

definition contrast_color :: "rat option \<Rightarrow> rat option" where
  "contrast_color avg =
     (case avg of
        None \<Rightarrow> None
      | Some v \<Rightarrow> Some (if v < 120 then max 0 (v - 40) else min 255 (v + 40)))"

definition to_uint8_clamp :: "rat option \<Rightarrow> 8 word" where
  "to_uint8_clamp v =
     (case v of
        None \<Rightarrow> 0
      | Some x \<Rightarrow>
          let clamped = min (max x 0) 255; f = \<lfloor>clamped\<rfloor>
          in if clamped < of_int f + 1 / 2 then of_int f
             else if of_int f + 1 / 2 < clamped then of_int (f + 1)
             else if even f then of_int f else of_int (f + 1))"

definition data_set :: "pixel_data \<Rightarrow> nat \<Rightarrow> rat option \<Rightarrow> pixel_data" where
  "data_set data j v = (if j < length data then data[j := to_uint8_clamp v] else data)"

function contrast_loop :: "pixel_data \<Rightarrow> nat \<Rightarrow> pixel_data" where
  "contrast_loop data i =
     (if i < length data then
        let avg = average3 (data_get data i) (data_get data (i + 1)) (data_get data (i + 2));
            color = contrast_color avg
        in contrast_loop
             (data_set (data_set (data_set data i color) (i + 1) color) (i + 2) color) (i + 4)
      else data)"
  by pat_completeness auto
termination
  by (relation "measure (\<lambda>(data, i). length data - i)") (auto simp: data_set_def)

declare contrast_loop.simps [simp del]

text \<open>The value the loop computes for pixel \<open>p\<close> of a buffer, before it is stored.\<close>

definition pixel_color :: "pixel_data \<Rightarrow> nat \<Rightarrow> rat option" where
  "pixel_color data p =
     contrast_color (average3 (data_get data (4 * p)) (data_get data (4 * p + 1))
       (data_get data (4 * p + 2)))"

section \<open>RecognitionBackend: \<^verbatim>\<open>performGeminiOCR\<close>\<close>

text \<open>
  A thrown value is an error object whose \<^verbatim>\<open>message\<close> may be missing. The asynchronous
  function is modelled by its settlement: \<open>Inl\<close> the message of the error it rejects with,
  \<open>Inr\<close> the text it resolves to. The client call \<^verbatim>\<open>ai.models.generateContent\<close> is a
  parameter: given the key, the MIME type and the payload it throws or returns a response
  whose \<^verbatim>\<open>text\<close> may be missing.
\<close>

datatype js_error = Error (message: "jsstring option")

definition api_key_missing :: jsstring where
  \<comment> \<open>"API Key " U+672A U+8A2D U+5B9A\<close>
  "api_key_missing = ascii ''API Key '' @ [0x672A, 0x8A2D, 0x5B9A]"

definition bad_image_data :: jsstring where
  \<comment> \<open>the message of the payload check: image data malformed, please capture again\<close>
  "bad_image_data =
     [0x5F71, 0x50CF, 0x6578, 0x64DA, 0x683C, 0x5F0F, 0x932F, 0x8AA4, 0xFF0C, 0x8ACB, 0x91CD,
      0x65B0, 0x62CD, 0x651D, 0x3002]"

definition rate_limited_message :: jsstring where
  \<comment> \<open>request rate reached the limit (free tier), wait a few seconds and retry\<close>
  "rate_limited_message =
     [0x0041, 0x0050, 0x0049, 0x0020, 0x8ACB, 0x6C42, 0x983B, 0x7387, 0x9054, 0x5230, 0x9650,
      0x5236, 0x0020, 0x0028, 0x514D, 0x8CBB, 0x7248, 0x0029, 0xFF0C, 0x8ACB, 0x7A0D, 0x7B49,
      0x5E7E, 0x79D2, 0x5F8C, 0x91CD, 0x8A66, 0x3002]"

definition invalid_image_message :: jsstring where
  \<comment> \<open>image format incompatible or data damaged, please try taking the photo again\<close>
  "invalid_image_message =
     [0x5F71, 0x50CF, 0x683C, 0x5F0F, 0x4E0D, 0x76F8, 0x5BB9, 0x6216, 0x6578, 0x64DA, 0x53D7,
      0x640D, 0xFF0C, 0x8ACB, 0x5617, 0x8A66, 0x91CD, 0x65B0, 0x62CD, 0x7167, 0x3002]"

definition generic_prefix :: jsstring where
  \<comment> \<open>"AI " U+8FA8 U+8B58 U+7570 U+5E38 ": ", recognition error\<close>
  "generic_prefix = [0x0041, 0x0049, 0x0020, 0x8FA8, 0x8B58, 0x7570, 0x5E38, 0x003A, 0x0020]"

definition unknown_error :: jsstring where
  \<comment> \<open>U+672A U+77E5 U+932F U+8AA4, unknown error\<close>
  "unknown_error = [0x672A, 0x77E5, 0x932F, 0x8AA4]"

definition getAI :: "jsstring option \<Rightarrow> js_error + jsstring" where
  "getAI env_key =
     (let apiKey = (case env_key of None \<Rightarrow> [] | Some k \<Rightarrow> k)
      in if apiKey = [] then Inl (Error (Some api_key_missing)) else Inr apiKey)"

text \<open>
  \<^verbatim>\<open>/^data:(image\/\w+);base64,(.+)$/\<close>: after \<^verbatim>\<open>data:image/\<close> the greedy \<^verbatim>\<open>\w+\<close> takes
  the whole run of word characters, since the semicolon that must follow is not one; the
  payload is the non-empty rest, in which the dot accepts no line terminator.
\<close>

definition is_word_char :: "16 word \<Rightarrow> bool" where
  "is_word_char c = (is_alnum c \<or> c = 0x5F)"

definition is_line_terminator :: "16 word \<Rightarrow> bool" where
  "is_line_terminator c = (c = 0x0A \<or> c = 0x0D \<or> c = 0x2028 \<or> c = 0x2029)"

definition base64Regex :: "jsstring \<Rightarrow> (jsstring \<times> jsstring) option" where
  "base64Regex s =
     (if prefix (ascii ''data:image/'') s then
        let r = drop 11 s; w = takeWhile is_word_char r; r' = dropWhile is_word_char r
        in if w \<noteq> [] \<and> prefix (ascii '';base64,'') r' \<and> drop 8 r' \<noteq> [] \<and>
              list_all (\<lambda>c. \<not> is_line_terminator c) (drop 8 r')
           then Some (ascii ''image/'' @ w, drop 8 r')
           else None
      else None)"

definition extract_image :: "jsstring \<Rightarrow> jsstring \<times> jsstring" where
  "extract_image base64Image =
     (case base64Regex base64Image of
        Some (mimeType, imageData) \<Rightarrow> (mimeType, imageData)
      | None \<Rightarrow>
          if js_includes base64Image (ascii '','')
          then (ascii ''image/jpeg'',
                takeWhile (\<lambda>c. c \<noteq> 0x2C) (drop 1 (dropWhile (\<lambda>c. c \<noteq> 0x2C) base64Image)))
          else (ascii ''image/jpeg'', base64Image))"

definition try_block ::
  "jsstring option \<Rightarrow> (jsstring \<Rightarrow> jsstring \<Rightarrow> jsstring \<Rightarrow> js_error + jsstring option) \<Rightarrow>
   jsstring \<Rightarrow> js_error + jsstring" where
  "try_block env_key generateContent base64Image =
     (case getAI env_key of
        Inl e \<Rightarrow> Inl e
      | Inr ai \<Rightarrow>
          let (mimeType, imageData) = extract_image base64Image
          in if imageData = [] \<or> length imageData < 10 then Inl (Error (Some bad_image_data))
             else
               (case generateContent ai mimeType imageData of
                  Inl e \<Rightarrow> Inl e
                | Inr None \<Rightarrow> Inr no_text
                | Inr (Some t) \<Rightarrow> Inr (if trim t = [] then no_text else trim t)))"

definition message_includes :: "js_error \<Rightarrow> jsstring \<Rightarrow> bool" where
  "message_includes e pat = (case message e of None \<Rightarrow> False | Some m \<Rightarrow> js_includes m pat)"

definition message_or_unknown :: "js_error \<Rightarrow> jsstring" where
  "message_or_unknown e =
     (case message e of None \<Rightarrow> unknown_error | Some m \<Rightarrow> if m = [] then unknown_error else m)"

definition catch_block :: "js_error \<Rightarrow> jsstring" where
  "catch_block e =
     (if message_includes e (ascii ''429'') then rate_limited_message
      else if message_includes e (ascii ''INVALID_ARGUMENT'') \<or>
              message_includes e (ascii ''MIME type'')
      then invalid_image_message
      else generic_prefix @ message_or_unknown e)"

definition performGeminiOCR ::
  "jsstring option \<Rightarrow> (jsstring \<Rightarrow> jsstring \<Rightarrow> jsstring \<Rightarrow> js_error + jsstring option) \<Rightarrow>
   jsstring \<Rightarrow> jsstring + jsstring" where
  "performGeminiOCR env_key generateContent base64Image =
     (case try_block env_key generateContent base64Image of
        Inl e \<Rightarrow> Inl (catch_block e)
      | Inr text \<Rightarrow> Inr text)"

section \<open>Properties of the SimilarityGate\<close>

subsection \<open>Sets and substrings\<close>

lemma foldl_set_add_set: "set (foldl set_add acc xs) = set acc \<union> set xs"
  by (induction xs arbitrary: acc) (auto simp: set_add_def)

lemma foldl_set_add_distinct: "distinct acc \<Longrightarrow> distinct (foldl set_add acc xs)"
  by (induction xs arbitrary: acc) (auto simp: set_add_def)

lemma set_new_Set: "set (new_Set xs) = set xs"
  by (simp add: new_Set_def foldl_set_add_set)

lemma distinct_new_Set: "distinct (new_Set xs)"
  by (simp add: new_Set_def foldl_set_add_distinct)

lemma size_new_Set: "length (new_Set xs) = card (set xs)"
  using distinct_card [OF distinct_new_Set, of xs] by (simp add: set_new_Set)

lemma calculateSimilarity_card:
  "calculateSimilarity a b =
     (if a = [] \<or> b = [] then 0
      else if a = b then 1
      else of_nat (card (set a \<inter> set b)) / of_nat (card (set a \<union> set b)))"
proof -
  have "{x \<in> set a. x \<in> set b} = set a \<inter> set b" by auto
  then show ?thesis
    by (simp add: calculateSimilarity_def Let_def size_new_Set set_new_Set)
qed

text \<open>\<open>js_includes\<close> is the substring relation.\<close>

lemma js_includes_iff: "js_includes s pat \<longleftrightarrow> (\<exists>pre post. s = pre @ pat @ post)"
proof (induction s)
  case Nil
  then show ?case by auto
next
  case (Cons c cs)
  show ?case
  proof
    assume "js_includes (c # cs) pat"
    then consider "prefix pat (c # cs)" | "js_includes cs pat" by auto
    then show "\<exists>pre post. c # cs = pre @ pat @ post"
    proof cases
      case 1
      then obtain post where "c # cs = pat @ post" by (auto simp: prefix_def)
      then have "c # cs = [] @ pat @ post" by simp
      then show ?thesis by blast
    next
      case 2
      with Cons.IH obtain pre post where "cs = pre @ pat @ post" by blast
      then have "c # cs = (c # pre) @ pat @ post" by simp
      then show ?thesis by blast
    qed
  next
    assume "\<exists>pre post. c # cs = pre @ pat @ post"
    then obtain pre post where eq: "c # cs = pre @ pat @ post" by blast
    show "js_includes (c # cs) pat"
    proof (cases pre)
      case Nil
      with eq have "prefix pat (c # cs)" by (simp add: prefix_def)
      then show ?thesis by simp
    next
      case (Cons p pre')
      with eq have "cs = pre' @ pat @ post" by simp
      with Cons.IH have "js_includes cs pat" by blast
      then show ?thesis by simp
    qed
  qed
qed

lemma js_includes_mid: "js_includes (pre @ pat @ post) pat"
  by (auto simp: js_includes_iff)

subsection \<open>Forced playback\<close>

text \<open>
  Claim C1 says that \<^verbatim>\<open>playTTS\<close> with \<^verbatim>\<open>force = true\<close> starts playback for every
  candidate text, the empty text, the sentinel and the placeholders included. The first
  statement of \<^verbatim>\<open>playTTS\<close> returns for these texts before \<^verbatim>\<open>force\<close> is looked at:
  forced playback of the empty text, of the sentinel and of the text shown while a
  recognition is in progress does not start.
\<close>

theorem playTTS_force_counterexample:
  "\<not> fst (playTTS [] True
      \<lparr>isSmartSpeech = True, isSpeaking = False, currentSpeakingText = [], utterances = []\<rparr>) \<and>
   \<not> fst (playTTS no_text True
      \<lparr>isSmartSpeech = True, isSpeaking = False, currentSpeakingText = [], utterances = []\<rparr>) \<and>
   \<not> fst (playTTS (recognizing_text @ [0x4E2D, 0x2E, 0x2E, 0x2E]) True
      \<lparr>isSmartSpeech = True, isSpeaking = False, currentSpeakingText = [], utterances = []\<rparr>)"
  by (simp add: playTTS_def recognizing_text_def failed_text_def no_text_def)

text \<open>
  Claim C1, amended: for every candidate text that is not empty, is not the sentinel and
  contains neither placeholder, \<^verbatim>\<open>playTTS\<close> with \<^verbatim>\<open>force = true\<close> starts playback,
  whatever the text being spoken, the speaking flag and the smart-speech switch are: the
  running speech is stopped and the candidate is the one utterance handed to the
  synthesizer.
\<close>

theorem playTTS_force_speaks:
  assumes "text \<noteq> []" and "\<not> js_includes text recognizing_text"
    and "\<not> js_includes text failed_text" and "text \<noteq> no_text"
  shows "playTTS text True st =
           (True, st\<lparr>utterances := [text], isSpeaking := False, currentSpeakingText := []\<rparr>)"
  using assms by (simp add: playTTS_def stopAllSpeech_def)

theorem playTTS_force_speaks_witness:
  "[0x4ECA, 0x5929] \<noteq> ([] :: jsstring) \<and>
   \<not> js_includes [0x4ECA, 0x5929] recognizing_text \<and>
   \<not> js_includes [0x4ECA, 0x5929] failed_text \<and>
   [0x4ECA, 0x5929] \<noteq> no_text \<and>
   playTTS [0x4ECA, 0x5929] True
     \<lparr>isSmartSpeech = True, isSpeaking = True, currentSpeakingText = [0x4ECA, 0x5929],
      utterances = [[0x4ECA, 0x5929]]\<rparr> =
   (True, \<lparr>isSmartSpeech = True, isSpeaking = False, currentSpeakingText = [],
      utterances = [[0x4ECA, 0x5929]]\<rparr>)"
proof -
  have h: "[0x4ECA, 0x5929] \<noteq> ([] :: jsstring)"
    "\<not> js_includes [0x4ECA, 0x5929 :: 16 word] recognizing_text"
    "\<not> js_includes [0x4ECA, 0x5929 :: 16 word] failed_text"
    "[0x4ECA, 0x5929] \<noteq> no_text"
    by (simp_all add: recognizing_text_def failed_text_def no_text_def)
  show ?thesis
    using h playTTS_force_speaks [OF h,
      of "\<lparr>isSmartSpeech = True, isSpeaking = True, currentSpeakingText = [0x4ECA, 0x5929],
      utterances = [[0x4ECA, 0x5929]]\<rparr>"]
    by simp
qed

subsection \<open>The similarity score\<close>

text \<open>
  Claim C5: the similarity score is the Jaccard index of the two sets of characters,
  the size of the intersection over the size of the union, but 0 when either string is
  empty and 1 when the strings are equal; so the score of \<open>abc\<close> with itself is 1, of the
  empty string with \<open>x\<close> is 0, of \<open>abc\<close> with \<open>xyz\<close> is 0, and the score is symmetric.
\<close>

theorem similarity_is_jaccard_index:
  "calculateSimilarity a b =
     (if a = [] \<or> b = [] then 0
      else if a = b then 1
      else of_nat (card (set a \<inter> set b)) / of_nat (card (set a \<union> set b))) \<and>
   calculateSimilarity (ascii ''abc'') (ascii ''abc'') = 1 \<and>
   calculateSimilarity [] (ascii ''x'') = 0 \<and>
   calculateSimilarity (ascii ''abc'') (ascii ''xyz'') = 0 \<and>
   calculateSimilarity a b = calculateSimilarity b a"
proof -
  have e1: "calculateSimilarity (ascii ''abc'') (ascii ''abc'') = 1"
    by (simp add: calculateSimilarity_def ascii_def)
  have e2: "calculateSimilarity [] (ascii ''x'') = 0"
    by (simp add: calculateSimilarity_def)
  have e3: "calculateSimilarity (ascii ''abc'') (ascii ''xyz'') = 0"
    by (simp add: calculateSimilarity_def ascii_def new_Set_def set_add_def)
  have sym: "calculateSimilarity a b = calculateSimilarity b a"
    by (auto simp: calculateSimilarity_card Int_commute Un_commute)
  from calculateSimilarity_card [of a b] e1 e2 e3 sym show ?thesis
    by (intro conjI)
qed

theorem similarity_is_jaccard_index_witness:
  "calculateSimilarity (ascii ''abc'') (ascii ''bcd'') = 1 / 2 \<and>
   calculateSimilarity (ascii ''bcd'') (ascii ''abc'') = 1 / 2 \<and>
   card (set (ascii ''abc'') \<inter> set (ascii ''bcd'')) = 2 \<and>
   card (set (ascii ''abc'') \<union> set (ascii ''bcd'')) = 4"
proof -
  have i: "set (ascii ''abc'') \<inter> set (ascii ''bcd'') = {0x62, 0x63}"
    by (auto simp: ascii_def)
  have u: "set (ascii ''abc'') \<union> set (ascii ''bcd'') = {0x61, 0x62, 0x63, 0x64}"
    by (auto simp: ascii_def)
  have ne: "ascii ''abc'' \<noteq> ascii ''bcd''" "ascii ''abc'' \<noteq> []" "ascii ''bcd'' \<noteq> []"
    by (simp_all add: ascii_def)
  have ci: "card (set (ascii ''abc'') \<inter> set (ascii ''bcd'')) = 2" unfolding i by simp
  have cu: "card (set (ascii ''abc'') \<union> set (ascii ''bcd'')) = 4" unfolding u by simp
  show ?thesis
    using similarity_is_jaccard_index [of "ascii ''abc''" "ascii ''bcd''"] ne ci cu
    by simp
qed

subsection \<open>Suppression\<close>

text \<open>
  Claim C6 speaks of every candidate that is neither empty nor the sentinel. A candidate
  that contains a placeholder is neither, and \<^verbatim>\<open>playTTS\<close> returns for it at once: with
  smart speech on and playback active the text shown during a recognition is not spoken
  although its similarity with the spoken text \<open>abc\<close> is 0, and it is not spoken with
  smart speech off either.
\<close>

theorem playTTS_suppression_counterexample:
  "recognizing_text \<noteq> [] \<and> recognizing_text \<noteq> no_text \<and>
   calculateSimilarity recognizing_text (ascii ''abc'') < 1 / 4 \<and>
   \<not> fst (playTTS recognizing_text False
      \<lparr>isSmartSpeech = True, isSpeaking = True, currentSpeakingText = ascii ''abc'',
       utterances = [ascii ''abc'']\<rparr>) \<and>
   \<not> fst (playTTS recognizing_text False
      \<lparr>isSmartSpeech = False, isSpeaking = False, currentSpeakingText = [],
       utterances = []\<rparr>)"
  by (simp add: playTTS_def recognizing_text_def no_text_def calculateSimilarity_def ascii_def
      new_Set_def set_add_def)

text \<open>
  Claim C6, amended: for every candidate that is not empty, is not the sentinel and
  contains neither placeholder: when smart speech is on, playback is active and
  \<^verbatim>\<open>force\<close> is false, \<^verbatim>\<open>playTTS\<close> does not start playback if and only if the similarity
  of the candidate with the text being spoken is at least \<open>1/4\<close>; when smart speech is off,
  playback starts.
\<close>

theorem playTTS_suppression:
  assumes "text \<noteq> []" and "\<not> js_includes text recognizing_text"
    and "\<not> js_includes text failed_text" and "text \<noteq> no_text"
  shows "(isSmartSpeech st \<and> isSpeaking st \<longrightarrow>
           (fst (playTTS text False st) = False \<longleftrightarrow>
            calculateSimilarity text (currentSpeakingText st) \<ge> 1 / 4)) \<and>
         (\<not> isSmartSpeech st \<longrightarrow> fst (playTTS text force st) = True)"
  using assms by (simp add: playTTS_def Let_def)

theorem playTTS_suppression_witness:
  "[0x4ECA, 0x5929, 0x5929, 0x6C23, 0x771F, 0x597D] \<noteq> ([] :: jsstring) \<and>
   \<not> js_includes [0x4ECA, 0x5929, 0x5929, 0x6C23, 0x771F, 0x597D] recognizing_text \<and>
   \<not> js_includes [0x4ECA, 0x5929, 0x5929, 0x6C23, 0x771F, 0x597D] failed_text \<and>
   [0x4ECA, 0x5929, 0x5929, 0x6C23, 0x771F, 0x597D] \<noteq> no_text \<and>
   calculateSimilarity [0x4ECA, 0x5929, 0x5929, 0x6C23, 0x771F, 0x597D]
     [0x4ECA, 0x5929, 0x5929, 0x6C23, 0x5F88, 0x597D] = 2 / 3 \<and>
   \<not> fst (playTTS [0x4ECA, 0x5929, 0x5929, 0x6C23, 0x771F, 0x597D] False
      \<lparr>isSmartSpeech = True, isSpeaking = True,
       currentSpeakingText = [0x4ECA, 0x5929, 0x5929, 0x6C23, 0x5F88, 0x597D],
       utterances = []\<rparr>) \<and>
   fst (playTTS [0x4ECA, 0x5929, 0x5929, 0x6C23, 0x771F, 0x597D] False
      \<lparr>isSmartSpeech = False, isSpeaking = True,
       currentSpeakingText = [0x4ECA, 0x5929, 0x5929, 0x6C23, 0x5F88, 0x597D],
       utterances = []\<rparr>)"
proof -
  let ?t = "[0x4ECA, 0x5929, 0x5929, 0x6C23, 0x771F, 0x597D] :: jsstring"
  let ?c = "[0x4ECA, 0x5929, 0x5929, 0x6C23, 0x5F88, 0x597D] :: jsstring"
  have h: "?t \<noteq> []" "\<not> js_includes ?t recognizing_text" "\<not> js_includes ?t failed_text"
    "?t \<noteq> no_text"
    by (simp_all add: recognizing_text_def failed_text_def no_text_def)
  have s: "calculateSimilarity ?t ?c = 2 / 3"
    by (simp add: calculateSimilarity_def new_Set_def set_add_def)
  show ?thesis
    using h s
      playTTS_suppression [OF h, of "\<lparr>isSmartSpeech = True, isSpeaking = True,
        currentSpeakingText = ?c, utterances = []\<rparr>" False]
      playTTS_suppression [OF h, of "\<lparr>isSmartSpeech = False, isSpeaking = True,
        currentSpeakingText = ?c, utterances = []\<rparr>" False]
    by simp
qed

subsection \<open>Texts that are never spoken\<close>

text \<open>
  Claim C10: \<^verbatim>\<open>playTTS\<close> does not start playback, with \<^verbatim>\<open>force\<close> or without it, of the
  empty text, of the sentinel, and of any text that contains one of the two placeholder
  strings anywhere, a recognized text that merely contains one of them included. The
  speech state is left as it was.
\<close>

theorem playTTS_refuses_placeholder_text:
  "playTTS [] force st = (False, st) \<and>
   playTTS no_text force st = (False, st) \<and>
   playTTS (pre @ recognizing_text @ post) force st = (False, st) \<and>
   playTTS (pre @ failed_text @ post) force st = (False, st)"
  by (simp add: playTTS_def js_includes_mid)

theorem playTTS_refuses_placeholder_text_witness:
  "playTTS ([0x6B64, 0x6B21] @ failed_text @ [0x7684, 0x539F, 0x56E0]) True
     \<lparr>isSmartSpeech = True, isSpeaking = False, currentSpeakingText = [], utterances = []\<rparr> =
   (False, \<lparr>isSmartSpeech = True, isSpeaking = False, currentSpeakingText = [], utterances = []\<rparr>)"
  using playTTS_refuses_placeholder_text [of True _ "[0x6B64, 0x6B21]" "[0x7684, 0x539F, 0x56E0]"]
  by simp

section \<open>Properties of the TextCleaner\<close>

subsection \<open>The scan\<close>

lemma skip_char_iff:
  "i < length chars \<Longrightarrow>
   skip_char chars i \<longleftrightarrow>
     (0 < i \<and> i + 1 < length chars \<and> isSpecialSymbol (chars ! i) \<and>
      chineseCharPattern (chars ! (i - 1)) \<and> chineseCharPattern (chars ! (i + 1)))"
  by (auto simp: skip_char_def js_index_def nat_diff_distrib nat_add_distrib split: option.splits)

lemma scan_loop_filter:
  "scan_loop chars i result =
     result @ map ((!) chars) (filter (\<lambda>j. \<not> skip_char chars j) [i..<length chars])"
proof (induction chars i result rule: scan_loop.induct)
  case (1 chars i result)
  show ?case
  proof (cases "i < length chars")
    case True
    then have upt: "[i..<length chars] = i # [i + 1..<length chars]"
      by (simp add: upt_conv_Cons)
    show ?thesis
    proof (cases "skip_char chars i")
      case True
      with \<open>i < length chars\<close> "1.IH"(1) upt show ?thesis
        by (subst scan_loop.simps) simp
    next
      case False
      with \<open>i < length chars\<close> "1.IH"(2) upt show ?thesis
        by (subst scan_loop.simps) simp
    qed
  next
    case False
    then show ?thesis by (subst scan_loop.simps) simp
  qed
qed

lemma scan_filter:
  "scan chars = map ((!) chars) (filter (\<lambda>j. \<not> skip_char chars j) [0..<length chars])"
  by (simp add: scan_def scan_loop_filter)

text \<open>
  Claim C4 lists the allowed punctuation as the fullwidth marks and brackets only. The
  character class of the source also holds the ASCII question mark: between two
  ideographs it is an isolated symbol in the claim's sense, and the scan keeps it.
\<close>

theorem scan_question_mark_counterexample:
  "spec_isolated_symbol [0x9019, 0x3F, 0x662F] 1 \<and>
   scan [0x9019, 0x3F, 0x662F] = [0x9019, 0x3F, 0x662F] \<and>
   cleanOcrText [0x9019, 0x3F, 0x662F] = [0x9019, 0x3F, 0x662F]"
  by code_simp

text \<open>
  Claim C4, amended: the scan drops exactly the characters that are not an ideograph,
  not a Latin letter or digit, not white space and not allowed punctuation (the
  fullwidth comma, full stop, exclamation mark, question mark, colon, semicolon and
  parentheses, the two pairs of corner brackets, and the ASCII question mark), and that
  stand directly between two ideographs; every other character is kept, in order. In
  particular the text U+9019 \<open>$\<close> U+662F U+4E00 \<open>$\<close> U+500B is cleaned to
  U+9019 U+662F U+4E00 U+500B, and the text U+9019 \<open>,\<close> space U+662F keeps its comma.
\<close>

theorem scan_drops_isolated_symbols:
  "scan chars =
     map ((!) chars)
       (filter (\<lambda>i. \<not> (0 < i \<and> i + 1 < length chars \<and>
            \<not> chineseCharPattern (chars ! i) \<and> \<not> is_alnum (chars ! i) \<and>
            \<not> is_space (chars ! i) \<and> \<not> allowed_punct (chars ! i) \<and>
            chineseCharPattern (chars ! (i - 1)) \<and> chineseCharPattern (chars ! (i + 1))))
          [0..<length chars]) \<and>
   cleanOcrText [0x9019, 0x24, 0x662F, 0x4E00, 0x24, 0x500B] = [0x9019, 0x662F, 0x4E00, 0x500B] \<and>
   cleanOcrText [0x9019, 0x2C, 0x20, 0x662F] = [0x9019, 0x2C, 0x20, 0x662F]"
proof -
  have "filter (\<lambda>j. \<not> skip_char chars j) [0..<length chars] =
        filter (\<lambda>i. \<not> (0 < i \<and> i + 1 < length chars \<and>
            \<not> chineseCharPattern (chars ! i) \<and> \<not> is_alnum (chars ! i) \<and>
            \<not> is_space (chars ! i) \<and> \<not> allowed_punct (chars ! i) \<and>
            chineseCharPattern (chars ! (i - 1)) \<and> chineseCharPattern (chars ! (i + 1))))
          [0..<length chars]"
    by (rule filter_cong) (auto simp: skip_char_iff isSpecialSymbol_def)
  then have a: "scan chars =
     map ((!) chars)
       (filter (\<lambda>i. \<not> (0 < i \<and> i + 1 < length chars \<and>
            \<not> chineseCharPattern (chars ! i) \<and> \<not> is_alnum (chars ! i) \<and>
            \<not> is_space (chars ! i) \<and> \<not> allowed_punct (chars ! i) \<and>
            chineseCharPattern (chars ! (i - 1)) \<and> chineseCharPattern (chars ! (i + 1))))
          [0..<length chars])"
    by (simp add: scan_filter)
  have b: "cleanOcrText [0x9019, 0x24, 0x662F, 0x4E00, 0x24, 0x500B] =
      [0x9019, 0x662F, 0x4E00, 0x500B]"
    by code_simp
  have c: "cleanOcrText [0x9019, 0x2C, 0x20, 0x662F] = [0x9019, 0x2C, 0x20, 0x662F]"
    by code_simp
  from a b c show ?thesis by (intro conjI)
qed

theorem scan_drops_isolated_symbols_witness:
  "scan [0x9019, 0x24, 0x662F, 0x4E00, 0x3F, 0x500B] = [0x9019, 0x662F, 0x4E00, 0x3F, 0x500B]"
  using scan_drops_isolated_symbols [of "[0x9019, 0x24, 0x662F, 0x4E00, 0x3F, 0x500B]"]
  by code_simp

subsection \<open>The end-to-end scenario\<close>

text \<open>
  Claim C7 gives the cleaned form of the raw text U+4ECA space \<open>|\<close> space U+5929 \<open>_\<close> U+5929
  space \<open>^\<close> space U+6C23 space U+771F space U+597D \<open>!!!\<close> as the six ideographs and one
  exclamation mark with no space. No step of \<^verbatim>\<open>cleanOcrText\<close> removes a space between
  two characters: the result is not that string.
\<close>

theorem end_to_end_counterexample:
  "cleanOcrText [0x4ECA, 0x20, 0x7C, 0x20, 0x5929, 0x5F, 0x5929, 0x20, 0x5E, 0x20, 0x6C23, 0x20,
     0x771F, 0x20, 0x597D, 0x21, 0x21, 0x21] \<noteq>
   [0x4ECA, 0x5929, 0x5929, 0x6C23, 0x771F, 0x597D, 0x21]"
  by code_simp

text \<open>
  Claim C7, amended: the raw text is cleaned to U+4ECA space U+5929 U+5929 space U+6C23
  space U+771F space U+597D \<open>!\<close>: the three noise characters are removed, the repeated
  exclamation mark is collapsed, and every run of spaces is left as one space.
\<close>

theorem end_to_end_keeps_spaces:
  "cleanOcrText [0x4ECA, 0x20, 0x7C, 0x20, 0x5929, 0x5F, 0x5929, 0x20, 0x5E, 0x20, 0x6C23, 0x20,
     0x771F, 0x20, 0x597D, 0x21, 0x21, 0x21] =
   [0x4ECA, 0x20, 0x5929, 0x5929, 0x20, 0x6C23, 0x20, 0x771F, 0x20, 0x597D, 0x21]"
  by code_simp

subsection \<open>Patterns as decompositions\<close>

lemma has_between_Cons:
  assumes "has_between Q ys"
  shows "has_between Q (x # ys)"
proof (cases ys)
  case Nil
  with assms show ?thesis by simp
next
  case (Cons b bs)
  with assms show ?thesis by (cases bs) auto
qed

lemma has_between_append: "has_between Q ys \<Longrightarrow> has_between Q (pre @ ys)"
  by (induction pre) (auto simp: has_between_Cons)

lemma has_between_iff:
  "has_between Q xs \<longleftrightarrow>
     (\<exists>pre a b c post. xs = pre @ a # b # c # post \<and>
        chineseCharPattern a \<and> Q b \<and> chineseCharPattern c)"
proof
  show "has_between Q xs \<Longrightarrow>
    \<exists>pre a b c post. xs = pre @ a # b # c # post \<and>
      chineseCharPattern a \<and> Q b \<and> chineseCharPattern c"
  proof (induction Q xs rule: has_between.induct)
    case (1 Q a b c cs)
    show ?case
    proof (cases "chineseCharPattern a \<and> Q b \<and> chineseCharPattern c")
      case True
      then have "a # b # c # cs = [] @ a # b # c # cs \<and>
          chineseCharPattern a \<and> Q b \<and> chineseCharPattern c"
        by simp
      then show ?thesis by blast
    next
      case False
      with 1 obtain pre a' b' c' post where
        "b # c # cs = pre @ a' # b' # c' # post" "chineseCharPattern a'" "Q b'"
        "chineseCharPattern c'"
        by auto
      then have "a # b # c # cs = (a # pre) @ a' # b' # c' # post \<and>
          chineseCharPattern a' \<and> Q b' \<and> chineseCharPattern c'"
        by simp
      then show ?thesis by blast
    qed
  qed simp_all
next
  assume "\<exists>pre a b c post. xs = pre @ a # b # c # post \<and>
      chineseCharPattern a \<and> Q b \<and> chineseCharPattern c"
  then obtain pre a b c post where
    "xs = pre @ a # b # c # post" "chineseCharPattern a" "Q b" "chineseCharPattern c"
    by blast
  then show "has_between Q xs" by (simp add: has_between_append)
qed

lemma has_punct_run_Cons: "has_punct_run ys \<Longrightarrow> has_punct_run (x # ys)"
  by (cases ys) auto

lemma has_punct_run_append: "has_punct_run ys \<Longrightarrow> has_punct_run (pre @ ys)"
  by (induction pre) (auto simp: has_punct_run_Cons)

lemma has_punct_run_iff:
  "has_punct_run xs \<longleftrightarrow> (\<exists>pre a post. xs = pre @ a # a # post \<and> is_repeatable a)"
proof
  show "has_punct_run xs \<Longrightarrow> \<exists>pre a post. xs = pre @ a # a # post \<and> is_repeatable a"
  proof (induction xs rule: has_punct_run.induct)
    case (1 a b cs)
    show ?case
    proof (cases "is_repeatable a \<and> b = a")
      case True
      then have "a # b # cs = [] @ a # a # cs \<and> is_repeatable a" by simp
      then show ?thesis by blast
    next
      case False
      with 1 obtain pre a' post where "b # cs = pre @ a' # a' # post" "is_repeatable a'"
        by auto
      then have "a # b # cs = (a # pre) @ a' # a' # post \<and> is_repeatable a'" by simp
      then show ?thesis by blast
    qed
  qed simp_all
next
  assume "\<exists>pre a post. xs = pre @ a # a # post \<and> is_repeatable a"
  then show "has_punct_run xs" by (auto simp: has_punct_run_append)
qed

lemma has_space_run_Cons: "has_space_run ys \<Longrightarrow> has_space_run (x # ys)"
  by (cases ys) auto

lemma has_space_run_append: "has_space_run ys \<Longrightarrow> has_space_run (pre @ ys)"
  by (induction pre) (auto simp: has_space_run_Cons)

lemma has_space_run_iff:
  "has_space_run xs \<longleftrightarrow> (\<exists>pre post. xs = pre @ 0x20 # 0x20 # post)"
proof
  show "has_space_run xs \<Longrightarrow> \<exists>pre post. xs = pre @ 0x20 # 0x20 # post"
  proof (induction xs rule: has_space_run.induct)
    case (1 a b cs)
    show ?case
    proof (cases "a = 0x20 \<and> b = 0x20")
      case True
      then have "a # b # cs = [] @ 0x20 # 0x20 # cs" by simp
      then show ?thesis by blast
    next
      case False
      with 1 obtain pre post where "b # cs = pre @ 0x20 # 0x20 # post" by auto
      then have "a # b # cs = (a # pre) @ 0x20 # 0x20 # post" by simp
      then show ?thesis by blast
    qed
  qed simp_all
next
  assume "\<exists>pre post. xs = pre @ 0x20 # 0x20 # post"
  then show "has_space_run xs" by (auto simp: has_space_run_append)
qed

lemma is_space_lf: "is_space 0x0A"
  by (simp add: is_space_def)

lemma has_blank_line_append: "has_blank_line ys \<Longrightarrow> has_blank_line (pre @ ys)"
  by (induction pre) auto

lemma has_blank_line_iff:
  "has_blank_line xs \<longleftrightarrow>
     (\<exists>pre ws post. xs = pre @ 0x0A # ws @ 0x0A # post \<and> list_all is_space ws)"
proof
  show "has_blank_line xs \<Longrightarrow>
    \<exists>pre ws post. xs = pre @ 0x0A # ws @ 0x0A # post \<and> list_all is_space ws"
  proof (induction xs)
    case Nil
    then show ?case by simp
  next
    case (Cons c cs)
    show ?case
    proof (cases "c = 0x0A \<and> 0x0A \<in> set (takeWhile is_space cs)")
      case True
      then obtain ws rest where tw: "takeWhile is_space cs = ws @ 0x0A # rest"
        by (auto dest: split_list)
      have "list_all is_space (takeWhile is_space cs)"
        by (auto simp: list_all_iff dest: set_takeWhileD)
      with tw have ws: "list_all is_space ws" by simp
      have "cs = takeWhile is_space cs @ dropWhile is_space cs" by simp
      with tw have "cs = ws @ 0x0A # (rest @ dropWhile is_space cs)" by simp
      with True have "c # cs = [] @ 0x0A # ws @ 0x0A # (rest @ dropWhile is_space cs)"
        by simp
      with ws show ?thesis by blast
    next
      case False
      with Cons obtain pre ws post where
        "cs = pre @ 0x0A # ws @ 0x0A # post" "list_all is_space ws"
        by auto
      then have "c # cs = (c # pre) @ 0x0A # ws @ 0x0A # post \<and> list_all is_space ws"
        by simp
      then show ?thesis by blast
    qed
  qed
next
  assume "\<exists>pre ws post. xs = pre @ 0x0A # ws @ 0x0A # post \<and> list_all is_space ws"
  then obtain pre ws post where
    xs: "xs = pre @ 0x0A # ws @ 0x0A # post" and ws: "list_all is_space ws"
    by blast
  from ws have "takeWhile is_space (ws @ 0x0A # post) = ws @ takeWhile is_space (0x0A # post)"
    by (simp add: list_all_iff)
  then have "0x0A \<in> set (takeWhile is_space (ws @ 0x0A # post))"
    by (simp add: is_space_lf)
  then have "has_blank_line (0x0A # ws @ 0x0A # post)" by simp
  with xs show "has_blank_line xs" by (simp add: has_blank_line_append)
qed

subsection \<open>Functions that copy a character and skip some of what follows\<close>

lemma skipping_suffix:
  assumes nil: "f [] = []"
    and step: "\<And>c cs. f (c # cs) = c # f (r c cs)"
    and suf: "\<And>c cs. suffix (r c cs) cs"
  shows "f xs = pre @ ys \<Longrightarrow> \<exists>pre' zs. xs = pre' @ zs \<and> f zs = ys"
proof (induction xs arbitrary: pre rule: length_induct)
  case (1 xs)
  show ?case
  proof (cases pre)
    case Nil
    with 1 have "xs = [] @ xs \<and> f xs = ys" by simp
    then show ?thesis by blast
  next
    case (Cons p pre1)
    with 1(2) nil obtain c cs where xs: "xs = c # cs" by (cases xs) auto
    with 1(2) Cons step have fr: "f (r c cs) = pre1 @ ys" by auto
    from suf [of c cs] obtain q where q: "cs = q @ r c cs" by (auto simp: suffix_def)
    then have "length (r c cs) < length xs" using xs
      by (metis length_append length_Cons le_add2 le_imp_less_Suc)
    with 1(1) fr obtain pre' zs where "r c cs = pre' @ zs" "f zs = ys" by blast
    with q xs have "xs = (c # q @ pre') @ zs \<and> f zs = ys" by simp
    then show ?thesis by blast
  qed
qed

lemma skipping_pair:
  assumes nil: "f [] = []"
    and step: "\<And>c cs. f (c # cs) = c # f (r c cs)"
    and suf: "\<And>c cs. suffix (r c cs) cs"
    and out: "f xs = pre @ a # b # post"
  shows "\<exists>pre' zs1 zs2. xs = pre' @ a # zs1 \<and> r a zs1 = b # zs2 \<and> f (b # zs2) = b # post"
proof -
  from skipping_suffix [of f r, OF nil step suf out]
  obtain pre' zs where xs: "xs = pre' @ zs" and fz: "f zs = a # b # post" by blast
  from fz nil obtain a' zs1 where zs: "zs = a' # zs1" by (cases zs) auto
  with fz step have a: "a' = a" and f1: "f (r a zs1) = b # post" by auto
  from f1 nil obtain b' zs2 where r: "r a zs1 = b' # zs2" by (cases "r a zs1") auto
  with f1 step have "b' = b" by auto
  with xs zs a r f1 show ?thesis by auto
qed

lemma skipping_triple:
  assumes nil: "f [] = []"
    and step: "\<And>c cs. f (c # cs) = c # f (r c cs)"
    and suf: "\<And>c cs. suffix (r c cs) cs"
    and out: "f xs = pre @ a # b # c # post"
  shows "\<exists>pre' zs1 zs2 zs3. xs = pre' @ a # zs1 \<and> r a zs1 = b # zs2 \<and> r b zs2 = c # zs3"
proof -
  from skipping_pair [of f r, OF nil step suf out]
  obtain pre' zs1 zs2 where xs: "xs = pre' @ a # zs1" and r1: "r a zs1 = b # zs2"
    and f2: "f (b # zs2) = b # c # post"
    by blast
  from f2 step have f3: "f (r b zs2) = c # post" by simp
  with nil obtain c' zs3 where r2: "r b zs2 = c' # zs3" by (cases "r b zs2") auto
  with f3 step have "c' = c" by auto
  with xs r1 r2 show ?thesis by blast
qed

lemma skipping_subset:
  assumes nil: "f [] = []"
    and step: "\<And>c cs. f (c # cs) = c # f (r c cs)"
    and suf: "\<And>c cs. suffix (r c cs) cs"
  shows "set (f xs) \<subseteq> set xs"
proof (induction xs rule: length_induct)
  case (1 xs)
  show ?case
  proof (cases xs)
    case Nil
    with nil show ?thesis by simp
  next
    case (Cons c cs)
    from suf [of c cs] obtain q where q: "cs = q @ r c cs" by (auto simp: suffix_def)
    then have "length (r c cs) < length xs" using Cons
      by (metis length_append length_Cons le_add2 le_imp_less_Suc)
    with 1 have "set (f (r c cs)) \<subseteq> set (r c cs)" by blast
    moreover from q have "set (r c cs) \<subseteq> set cs" by (metis set_append Un_upper2)
    ultimately show ?thesis using Cons step by auto
  qed
qed

subsection \<open>The three replacements copy and skip\<close>

lemma dropWhile_eq_self: "cs = [] \<or> hd cs \<noteq> c \<Longrightarrow> dropWhile (\<lambda>d. d = c) cs = cs"
  by (cases cs) auto

lemma dropWhile_eq_head: "dropWhile (\<lambda>d. d = c) cs \<noteq> c # zs"
proof
  assume e: "dropWhile (\<lambda>d. d = c) cs = c # zs"
  then have "dropWhile (\<lambda>d. d = c) cs \<noteq> []" by simp
  from hd_dropWhile [OF this] e show False by simp
qed

lemma collapse_punct_step: "collapse_punct (c # cs) = c # collapse_punct (punct_rest c cs)"
proof (cases "is_repeatable c \<and> js_index cs 0 = Some c")
  case True
  then show ?thesis by (simp add: punct_rest_def)
next
  case False
  then have "is_repeatable c \<Longrightarrow> cs = [] \<or> hd cs \<noteq> c"
    by (cases cs) (auto simp: js_index_def)
  then have "punct_rest c cs = cs"
    by (auto simp: punct_rest_def dropWhile_eq_self)
  with False show ?thesis by auto
qed

lemma punct_rest_suffix: "suffix (punct_rest c cs) cs"
  by (simp add: punct_rest_def suffix_dropWhile)

lemma collapse_spaces_step: "collapse_spaces (c # cs) = c # collapse_spaces (space_rest c cs)"
  by (simp add: space_rest_def)

lemma space_rest_suffix: "suffix (space_rest c cs) cs"
  by (simp add: space_rest_def suffix_dropWhile)

lemma collapse_blank_step: "collapse_blank (c # cs) = c # collapse_blank (blank_rest c cs)"
  by (simp add: blank_rest_def)

lemma after_last_lf_suffix: "suffix (after_last_lf ws) ws"
proof -
  have "prefix (takeWhile (\<lambda>d. d \<noteq> 0x0A) (rev ws)) (rev ws)" by (rule takeWhile_is_prefix)
  then have "suffix (rev (takeWhile (\<lambda>d. d \<noteq> 0x0A) (rev ws))) (rev (rev ws))"
    by (simp only: suffix_to_prefix rev_rev_ident)
  then show ?thesis by (simp add: after_last_lf_def)
qed

lemma blank_rest_suffix: "suffix (blank_rest c cs) cs"
proof (cases "c = 0x0A \<and> 0x0A \<in> set (takeWhile is_space cs)")
  case True
  from after_last_lf_suffix [of "takeWhile is_space cs"] obtain q where
    "takeWhile is_space cs = q @ after_last_lf (takeWhile is_space cs)"
    by (auto simp: suffix_def)
  then have "cs = q @ after_last_lf (takeWhile is_space cs) @ dropWhile is_space cs"
    by (metis append.assoc takeWhile_dropWhile_id)
  with True show ?thesis by (auto simp: blank_rest_def suffix_def)
next
  case False
  then show ?thesis by (auto simp: blank_rest_def)
qed

lemmas punct_skips = collapse_punct.simps(1) collapse_punct_step punct_rest_suffix
lemmas spaces_skips = collapse_spaces.simps(1) collapse_spaces_step space_rest_suffix
lemmas blank_skips = collapse_blank.simps(1) collapse_blank_step blank_rest_suffix

subsection \<open>Runs of punctuation\<close>

lemma collapse_punct_no_run: "\<not> has_punct_run (collapse_punct xs)"
proof
  assume "has_punct_run (collapse_punct xs)"
  then obtain pre a post where "collapse_punct xs = pre @ a # a # post" "is_repeatable a"
    by (auto simp: has_punct_run_iff)
  with skipping_pair [of collapse_punct punct_rest, OF punct_skips]
  obtain zs1 zs2 where "punct_rest a zs1 = a # zs2" by blast
  with \<open>is_repeatable a\<close> show False by (simp add: punct_rest_def dropWhile_eq_head)
qed

lemma collapse_spaces_punct_run:
  assumes "has_punct_run (collapse_spaces xs)"
  shows "has_punct_run xs"
proof -
  from assms obtain pre a post where
    "collapse_spaces xs = pre @ a # a # post" and a: "is_repeatable a"
    by (auto simp: has_punct_run_iff)
  with skipping_pair [of collapse_spaces space_rest, OF spaces_skips]
  obtain pre' zs1 zs2 where "xs = pre' @ a # zs1" "space_rest a zs1 = a # zs2" by blast
  moreover from a have "a \<noteq> 0x20" by (auto simp: is_repeatable_def)
  ultimately have "xs = pre' @ a # a # zs2" by (simp add: space_rest_def)
  with a show ?thesis by (auto simp: has_punct_run_iff)
qed

lemma collapse_blank_punct_run:
  assumes "has_punct_run (collapse_blank xs)"
  shows "has_punct_run xs"
proof -
  from assms obtain pre a post where
    "collapse_blank xs = pre @ a # a # post" and a: "is_repeatable a"
    by (auto simp: has_punct_run_iff)
  with skipping_pair [of collapse_blank blank_rest, OF blank_skips]
  obtain pre' zs1 zs2 where "xs = pre' @ a # zs1" "blank_rest a zs1 = a # zs2" by blast
  moreover from a have "a \<noteq> 0x0A" by (auto simp: is_repeatable_def)
  ultimately have "xs = pre' @ a # a # zs2" by (simp add: blank_rest_def)
  with a show ?thesis by (auto simp: has_punct_run_iff)
qed

subsection \<open>Runs of spaces\<close>

lemma collapse_spaces_no_run: "\<not> has_space_run (collapse_spaces xs)"
proof
  assume "has_space_run (collapse_spaces xs)"
  then obtain pre post where "collapse_spaces xs = pre @ 0x20 # 0x20 # post"
    by (auto simp: has_space_run_iff)
  with skipping_pair [of collapse_spaces space_rest, OF spaces_skips]
  obtain zs1 zs2 where "space_rest 0x20 zs1 = 0x20 # zs2" by blast
  then show False by (simp add: space_rest_def dropWhile_eq_head)
qed

lemma collapse_blank_space_run:
  assumes "has_space_run (collapse_blank xs)"
  shows "has_space_run xs"
proof -
  from assms obtain pre post where "collapse_blank xs = pre @ 0x20 # 0x20 # post"
    by (auto simp: has_space_run_iff)
  with skipping_pair [of collapse_blank blank_rest, OF blank_skips]
  obtain pre' zs1 zs2 where "xs = pre' @ 0x20 # zs1" "blank_rest 0x20 zs1 = 0x20 # zs2"
    by blast
  then have "xs = pre' @ 0x20 # 0x20 # zs2" by (simp add: blank_rest_def)
  then show ?thesis by (auto simp: has_space_run_iff)
qed

subsection \<open>Blank lines\<close>

lemma takeWhile_dropWhile_Nil: "takeWhile P (dropWhile P xs) = []"
  by (induction xs) auto

lemma blank_rest_no_lf: "0x0A \<notin> set (takeWhile is_space (blank_rest 0x0A cs))"
proof (cases "0x0A \<in> set (takeWhile is_space cs)")
  case True
  let ?w = "takeWhile is_space cs"
  have sp: "\<forall>x\<in>set (after_last_lf ?w). is_space x"
    using after_last_lf_suffix [of ?w] by (auto simp: suffix_def dest: set_takeWhileD)
      (metis Un_iff set_append set_takeWhileD)
  have "0x0A \<notin> set (after_last_lf ?w)"
    by (auto simp: after_last_lf_def dest: set_takeWhileD)
  moreover from sp have "takeWhile is_space (after_last_lf ?w @ dropWhile is_space cs) =
      after_last_lf ?w"
    by (simp add: takeWhile_dropWhile_Nil)
  ultimately show ?thesis using True by (simp add: blank_rest_def)
next
  case False
  then show ?thesis by (simp add: blank_rest_def)
qed

lemma collapse_blank_leading_space:
  "0x0A \<notin> set (takeWhile is_space u) \<Longrightarrow>
   takeWhile is_space (collapse_blank u) = takeWhile is_space u"
proof (induction u)
  case Nil
  then show ?case by simp
next
  case (Cons c cs)
  show ?case
  proof (cases "is_space c")
    case True
    with Cons.prems have "c \<noteq> 0x0A" "0x0A \<notin> set (takeWhile is_space cs)" by auto
    with Cons.IH True show ?thesis by simp
  next
    case False
    then have "c \<noteq> 0x0A" using is_space_lf by auto
    with False show ?thesis by simp
  qed
qed

lemma collapse_blank_no_blank_line: "\<not> has_blank_line (collapse_blank xs)"
proof
  assume "has_blank_line (collapse_blank xs)"
  then obtain pre ws post where
    out: "collapse_blank xs = pre @ 0x0A # ws @ 0x0A # post" and ws: "list_all is_space ws"
    by (auto simp: has_blank_line_iff)
  from skipping_suffix [of collapse_blank blank_rest, OF blank_skips out]
  obtain pre' zs where z: "collapse_blank zs = 0x0A # ws @ 0x0A # post" by blast
  then obtain c zs1 where "zs = c # zs1" by (cases zs) auto
  with z collapse_blank_step [of c zs1] have
    u: "collapse_blank (blank_rest 0x0A zs1) = ws @ 0x0A # post"
    by auto
  from ws have "takeWhile is_space (ws @ 0x0A # post) = ws @ takeWhile is_space (0x0A # post)"
    by (simp add: list_all_iff)
  then have "0x0A \<in> set (takeWhile is_space (ws @ 0x0A # post))"
    by (simp add: is_space_lf)
  with u collapse_blank_leading_space [OF blank_rest_no_lf, of zs1] blank_rest_no_lf [of zs1]
  show False by simp
qed

subsection \<open>Symbols between ideographs\<close>

lemma chinese_not_special: "chineseCharPattern a \<Longrightarrow> \<not> isSpecialSymbol a"
  by (simp add: isSpecialSymbol_def)

lemma chinese_not_repeatable: "chineseCharPattern a \<Longrightarrow> \<not> is_repeatable a"
  by (auto simp: chineseCharPattern_def is_repeatable_def)

lemma chinese_not_space: "chineseCharPattern a \<Longrightarrow> \<not> is_space a"
proof
  assume c: "chineseCharPattern a" and s: "is_space a"
  then have "0x4E00 \<le> a" by (simp add: chineseCharPattern_def)
  moreover have "a \<le> 0x200A \<Longrightarrow> False"
    using order_trans [OF calculation, of "0x200A"] by simp
  ultimately show False using s c by (auto simp: is_space_def chineseCharPattern_def)
qed

lemma special_not_space: "isSpecialSymbol a \<Longrightarrow> \<not> is_space a"
  by (simp add: isSpecialSymbol_def)

lemma is_space_sp: "is_space 0x20"
  by (simp add: is_space_def)

lemma collapse_punct_between:
  assumes "has_between Q (collapse_punct xs)" and "\<And>b. Q b \<Longrightarrow> \<not> is_repeatable b"
  shows "has_between Q xs"
proof -
  from assms(1) obtain pre a b c post where
    "collapse_punct xs = pre @ a # b # c # post" and
    abc: "chineseCharPattern a" "Q b" "chineseCharPattern c"
    by (auto simp: has_between_iff)
  with skipping_triple [of collapse_punct punct_rest, OF punct_skips]
  obtain pre' zs1 zs2 zs3 where
    "xs = pre' @ a # zs1" "punct_rest a zs1 = b # zs2" "punct_rest b zs2 = c # zs3"
    by blast
  moreover have "\<not> is_repeatable a" "\<not> is_repeatable b"
    using abc assms(2) by (auto simp: chinese_not_repeatable)
  ultimately have "xs = pre' @ a # b # c # zs3" by (simp add: punct_rest_def)
  with abc have "xs = pre' @ a # b # c # zs3 \<and>
      chineseCharPattern a \<and> Q b \<and> chineseCharPattern c"
    by simp
  then show ?thesis unfolding has_between_iff by blast
qed

lemma collapse_spaces_between:
  assumes "has_between Q (collapse_spaces xs)" and "\<And>b. Q b \<Longrightarrow> \<not> is_space b"
  shows "has_between Q xs"
proof -
  from assms(1) obtain pre a b c post where
    "collapse_spaces xs = pre @ a # b # c # post" and
    abc: "chineseCharPattern a" "Q b" "chineseCharPattern c"
    by (auto simp: has_between_iff)
  with skipping_triple [of collapse_spaces space_rest, OF spaces_skips]
  obtain pre' zs1 zs2 zs3 where
    "xs = pre' @ a # zs1" "space_rest a zs1 = b # zs2" "space_rest b zs2 = c # zs3"
    by blast
  moreover have "a \<noteq> 0x20" "b \<noteq> 0x20"
    using abc assms(2) is_space_sp by (auto dest: chinese_not_space)
  ultimately have "xs = pre' @ a # b # c # zs3" by (simp add: space_rest_def)
  with abc have "xs = pre' @ a # b # c # zs3 \<and>
      chineseCharPattern a \<and> Q b \<and> chineseCharPattern c"
    by simp
  then show ?thesis unfolding has_between_iff by blast
qed

lemma collapse_blank_between:
  assumes "has_between Q (collapse_blank xs)" and "\<And>b. Q b \<Longrightarrow> \<not> is_space b"
  shows "has_between Q xs"
proof -
  from assms(1) obtain pre a b c post where
    "collapse_blank xs = pre @ a # b # c # post" and
    abc: "chineseCharPattern a" "Q b" "chineseCharPattern c"
    by (auto simp: has_between_iff)
  with skipping_triple [of collapse_blank blank_rest, OF blank_skips]
  obtain pre' zs1 zs2 zs3 where
    "xs = pre' @ a # zs1" "blank_rest a zs1 = b # zs2" "blank_rest b zs2 = c # zs3"
    by blast
  moreover have "a \<noteq> 0x0A" "b \<noteq> 0x0A"
    using abc assms(2) is_space_lf by (auto dest: chinese_not_space)
  ultimately have "xs = pre' @ a # b # c # zs3" by (simp add: blank_rest_def)
  with abc have "xs = pre' @ a # b # c # zs3 \<and>
      chineseCharPattern a \<and> Q b \<and> chineseCharPattern c"
    by simp
  then show ?thesis unfolding has_between_iff by blast
qed

subsection \<open>Trimming\<close>

lemma trim_sublist: "\<exists>pre post. xs = pre @ trim xs @ post"
proof -
  let ?w = "dropWhile is_space xs"
  have "?w = trim xs @ rev (takeWhile is_space (rev ?w))"
    by (metis rev_append rev_rev_ident takeWhile_dropWhile_id trim_def)
  moreover have "xs = takeWhile is_space xs @ ?w" by simp
  ultimately have "xs = takeWhile is_space xs @ trim xs @ rev (takeWhile is_space (rev ?w))"
    by simp
  then show ?thesis by blast
qed

lemma trim_between: "has_between Q (trim xs) \<Longrightarrow> has_between Q xs"
proof -
  assume h: "has_between Q (trim xs)"
  obtain p q where xs: "xs = p @ trim xs @ q" using trim_sublist by blast
  from h obtain pre a b c post where
    "trim xs = pre @ a # b # c # post" "chineseCharPattern a" "Q b" "chineseCharPattern c"
    by (auto simp: has_between_iff)
  with xs have "xs = (p @ pre) @ a # b # c # (post @ q) \<and>
      chineseCharPattern a \<and> Q b \<and> chineseCharPattern c"
    by simp
  then show ?thesis unfolding has_between_iff by blast
qed

lemma trim_punct_run: "has_punct_run (trim xs) \<Longrightarrow> has_punct_run xs"
proof -
  assume h: "has_punct_run (trim xs)"
  obtain p q where xs: "xs = p @ trim xs @ q" using trim_sublist by blast
  from h obtain pre a post where "trim xs = pre @ a # a # post" "is_repeatable a"
    by (auto simp: has_punct_run_iff)
  with xs have "xs = (p @ pre) @ a # a # (post @ q) \<and> is_repeatable a" by simp
  then show ?thesis unfolding has_punct_run_iff by blast
qed

lemma trim_space_run: "has_space_run (trim xs) \<Longrightarrow> has_space_run xs"
proof -
  assume h: "has_space_run (trim xs)"
  obtain p q where xs: "xs = p @ trim xs @ q" using trim_sublist by blast
  from h obtain pre post where "trim xs = pre @ 0x20 # 0x20 # post"
    by (auto simp: has_space_run_iff)
  with xs have "xs = (p @ pre) @ 0x20 # 0x20 # (post @ q)" by simp
  then show ?thesis unfolding has_space_run_iff by blast
qed

lemma trim_blank_line: "has_blank_line (trim xs) \<Longrightarrow> has_blank_line xs"
proof -
  assume h: "has_blank_line (trim xs)"
  obtain p q where xs: "xs = p @ trim xs @ q" using trim_sublist by blast
  from h obtain pre ws post where
    "trim xs = pre @ 0x0A # ws @ 0x0A # post" "list_all is_space ws"
    by (auto simp: has_blank_line_iff)
  with xs have "xs = (p @ pre) @ 0x0A # ws @ 0x0A # (post @ q) \<and> list_all is_space ws"
    by simp
  then show ?thesis unfolding has_blank_line_iff by blast
qed

lemma trim_idem: "trim (trim xs) = trim xs"
proof -
  let ?w = "dropWhile is_space xs"
  let ?v = "rev (dropWhile is_space (rev ?w))"
  have "dropWhile is_space ?v = ?v"
  proof (cases ?v)
    case Nil
    then show ?thesis by (simp only: dropWhile.simps)
  next
    case (Cons y ys)
    have "prefix (rev (dropWhile is_space (rev ?w))) (rev (rev ?w))"
      unfolding suffix_to_prefix [symmetric] by (rule suffix_dropWhile)
    then have "prefix ?v ?w" by simp
    with Cons obtain rest where w: "?w = y # rest" by (auto simp: prefix_def)
    then have "?w \<noteq> []" by simp
    from hd_dropWhile [OF this] w have "\<not> is_space y" by simp
    with Cons show ?thesis by simp
  qed
  then have "trim (trim xs) = rev (dropWhile is_space (rev ?v))"
    by (simp add: trim_def)
  also have "\<dots> = ?v" by (simp add: dropWhile_idem)
  finally show ?thesis by (simp add: trim_def)
qed

lemma set_trim: "set (trim xs) \<subseteq> set xs"
proof -
  obtain p q where "xs = p @ trim xs @ q" using trim_sublist by blast
  then have "set xs = set p \<union> set (trim xs) \<union> set q" by (metis set_append Un_assoc)
  then show ?thesis by blast
qed

subsection \<open>Fixed points of the steps\<close>

lemma collapse_punct_id: "\<not> has_punct_run xs \<Longrightarrow> collapse_punct xs = xs"
proof (induction xs)
  case Nil
  then show ?case by simp
next
  case (Cons c cs)
  then have "\<not> has_punct_run cs" using has_punct_run_Cons by blast
  with Cons.IH have "collapse_punct cs = cs" by simp
  moreover from Cons.prems have "\<not> (is_repeatable c \<and> js_index cs 0 = Some c)"
    by (cases cs) (auto simp: js_index_def)
  ultimately show ?case by auto
qed

lemma collapse_spaces_id: "\<not> has_space_run xs \<Longrightarrow> collapse_spaces xs = xs"
proof (induction xs)
  case Nil
  then show ?case by simp
next
  case (Cons c cs)
  then have "\<not> has_space_run cs" using has_space_run_Cons by blast
  with Cons.IH have "collapse_spaces cs = cs" by simp
  moreover from Cons.prems have "c = 0x20 \<Longrightarrow> cs = [] \<or> hd cs \<noteq> 0x20"
    by (cases cs) auto
  then have "c = 0x20 \<Longrightarrow> dropWhile (\<lambda>d. d = 0x20) cs = cs"
    by (rule dropWhile_eq_self)
  ultimately show ?case by simp
qed

lemma collapse_blank_id: "\<not> has_blank_line xs \<Longrightarrow> collapse_blank xs = xs"
  by (induction xs) auto

subsection \<open>The scan as a recursion on the text\<close>

lemma skip_char_scan_from:
  assumes "i < length chars"
  shows "skip_char chars i \<longleftrightarrow>
    (isSpecialSymbol (chars ! i) \<and>
     (case js_index chars (int i - 1) of None \<Rightarrow> False | Some a \<Rightarrow> chineseCharPattern a) \<and>
     (case drop (Suc i) chars of [] \<Rightarrow> False | d # ds \<Rightarrow> chineseCharPattern d))"
proof (cases "Suc i < length chars")
  case True
  then have "drop (Suc i) chars = chars ! Suc i # drop (Suc (Suc i)) chars"
    by (simp add: Cons_nth_drop_Suc)
  moreover from True have "js_index chars (int i + 1) = Some (chars ! Suc i)"
    by (simp add: js_index_def nat_add_distrib)
  moreover from assms have "js_index chars (int i) = Some (chars ! i)"
    by (simp add: js_index_def)
  ultimately show ?thesis by (simp add: skip_char_def split: option.splits)
next
  case False
  then have "drop (Suc i) chars = []" by simp
  moreover from False have "js_index chars (int i + 1) = None"
    by (simp add: js_index_def)
  ultimately show ?thesis by (simp add: skip_char_def split: option.splits)
qed

lemma scan_loop_scan_from:
  "i \<le> length chars \<Longrightarrow>
   scan_loop chars i result = result @ scan_from (js_index chars (int i - 1)) (drop i chars)"
proof (induction chars i result rule: scan_loop.induct)
  case (1 chars i result)
  show ?case
  proof (cases "i < length chars")
    case True
    then have d: "drop i chars = chars ! i # drop (Suc i) chars"
      by (simp add: Cons_nth_drop_Suc)
    from True have p: "js_index chars (int (i + 1) - 1) = Some (chars ! i)"
      by (simp add: js_index_def)
    show ?thesis
    proof (cases "skip_char chars i")
      case sk: True
      with True "1.IH"(1) p have
        "scan_loop chars (i + 1) result = result @ scan_from (Some (chars ! i)) (drop (i + 1) chars)"
        by simp
      moreover from sk True have "scan_loop chars i result = scan_loop chars (i + 1) result"
        by (subst scan_loop.simps) simp
      moreover from sk have "scan_from (js_index chars (int i - 1)) (drop i chars) =
          scan_from (Some (chars ! i)) (drop (i + 1) chars)"
        unfolding d skip_char_scan_from [OF True] by simp
      ultimately show ?thesis by simp
    next
      case sk: False
      with True "1.IH"(2) p have
        "scan_loop chars (i + 1) (result @ [chars ! i]) =
           (result @ [chars ! i]) @ scan_from (Some (chars ! i)) (drop (i + 1) chars)"
        by simp
      moreover from sk True have
        "scan_loop chars i result = scan_loop chars (i + 1) (result @ [chars ! i])"
        by (subst scan_loop.simps) simp
      moreover from sk have "scan_from (js_index chars (int i - 1)) (drop i chars) =
          chars ! i # scan_from (Some (chars ! i)) (drop (i + 1) chars)"
        unfolding d skip_char_scan_from [OF True] by auto
      ultimately show ?thesis by simp
    qed
  next
    case False
    with "1.prems" have "drop i chars = []" by simp
    moreover from False have "scan_loop chars i result = result"
      by (subst scan_loop.simps) simp
    ultimately show ?thesis by simp
  qed
qed

lemma scan_scan_from: "scan chars = scan_from None chars"
  using scan_loop_scan_from [of 0 chars "[]"] by (simp add: scan_def js_index_def)

lemma scan_from_keep_after:
  "\<not> chineseCharPattern a \<Longrightarrow> scan_from (Some a) (c # cs) = c # scan_from (Some c) cs"
  by simp

lemma has_between_Cons_iff:
  "has_between Q (a # ys) \<longleftrightarrow>
     (chineseCharPattern a \<and> (\<exists>b c zs. ys = b # c # zs \<and> Q b \<and> chineseCharPattern c)) \<or>
     has_between Q ys"
proof (cases ys)
  case Nil
  then show ?thesis by simp
next
  case (Cons b bs)
  then show ?thesis by (cases bs) auto
qed

lemma scan_from_no_isolated: "\<not> has_between isSpecialSymbol (scan_from p xs)"
proof (induction xs arbitrary: p)
  case Nil
  then show ?case by simp
next
  case (Cons c cs)
  show ?case
  proof (cases "scan_from p (c # cs) = scan_from (Some c) cs")
    case True
    with Cons.IH show ?thesis by simp
  next
    case False
    then have kept: "scan_from p (c # cs) = c # scan_from (Some c) cs"
      by (simp split: if_splits)
    have "\<not> (chineseCharPattern c \<and>
        (\<exists>b d zs. scan_from (Some c) cs = b # d # zs \<and> isSpecialSymbol b \<and> chineseCharPattern d))"
    proof
      assume "chineseCharPattern c \<and>
        (\<exists>b d zs. scan_from (Some c) cs = b # d # zs \<and> isSpecialSymbol b \<and> chineseCharPattern d)"
      then obtain b d zs where c: "chineseCharPattern c" and
        out: "scan_from (Some c) cs = b # d # zs" and b: "isSpecialSymbol b" and
        d: "chineseCharPattern d"
        by blast
      from out obtain e es where cs: "cs = e # es" by (cases cs) auto
      show False
      proof (cases "scan_from (Some c) (e # es) = scan_from (Some e) es")
        case True
        then obtain f fs where es: "es = f # fs" and f: "chineseCharPattern f"
          by (cases es) (auto split: if_splits)
        then have "scan_from (Some e) es = f # scan_from (Some f) fs"
          by (simp add: chinese_not_special)
        with True out cs have "b = f" by simp
        with b f show False by (simp add: chinese_not_special)
      next
        case False
        then have k: "scan_from (Some c) (e # es) = e # scan_from (Some e) es"
          by (simp split: if_splits)
        with out cs have be: "b = e" and rest: "scan_from (Some e) es = d # zs" by auto
        from rest obtain f fs where es: "es = f # fs" by (cases es) auto
        from b be have "\<not> chineseCharPattern e" using chinese_not_special by blast
        then have "scan_from (Some e) (f # fs) = f # scan_from (Some f) fs"
          by (rule scan_from_keep_after)
        with rest es have "d = f" by simp
        with False b be c d es show False by simp
      qed
    qed
    with Cons.IH [of "Some c"] kept show ?thesis
      by (simp only: has_between_Cons_iff) blast
  qed
qed

lemma scan_from_id:
  "\<not> has_between isSpecialSymbol (case p of None \<Rightarrow> xs | Some a \<Rightarrow> a # xs) \<Longrightarrow>
   scan_from p xs = xs"
proof (induction xs arbitrary: p)
  case Nil
  then show ?case by simp
next
  case (Cons c cs)
  have "\<not> has_between isSpecialSymbol (c # cs)"
    using Cons.prems by (cases p) (auto dest: has_between_Cons)
  with Cons.IH [of "Some c"] have "scan_from (Some c) cs = cs" by simp
  moreover have "\<not> (isSpecialSymbol c \<and>
      (case p of None \<Rightarrow> False | Some a \<Rightarrow> chineseCharPattern a) \<and>
      (case cs of [] \<Rightarrow> False | d # ds \<Rightarrow> chineseCharPattern d))"
    using Cons.prems by (cases p; cases cs) auto
  ultimately show ?case by simp
qed

lemma set_scan_from: "set (scan_from p xs) \<subseteq> set xs"
  by (induction xs arbitrary: p) auto

subsection \<open>The cleaned text\<close>

lemma clean_no_punct_run: "\<not> has_punct_run (cleanOcrText text)"
proof (cases "text = []")
  case True
  then show ?thesis by (simp add: cleanOcrText_def)
next
  case False
  have "\<not> has_punct_run (collapse_punct (scan (strip_noise text)))"
    by (rule collapse_punct_no_run)
  then have "\<not> has_punct_run
      (trim (collapse_blank (collapse_spaces (collapse_punct (scan (strip_noise text))))))"
    using trim_punct_run collapse_blank_punct_run collapse_spaces_punct_run by blast
  with False show ?thesis by (simp add: cleanOcrText_def)
qed

lemma clean_no_space_run: "\<not> has_space_run (cleanOcrText text)"
proof (cases "text = []")
  case True
  then show ?thesis by (simp add: cleanOcrText_def)
next
  case False
  have "\<not> has_space_run (collapse_spaces (collapse_punct (scan (strip_noise text))))"
    by (rule collapse_spaces_no_run)
  then have "\<not> has_space_run
      (trim (collapse_blank (collapse_spaces (collapse_punct (scan (strip_noise text))))))"
    using trim_space_run collapse_blank_space_run by blast
  with False show ?thesis by (simp add: cleanOcrText_def)
qed

lemma clean_no_blank_line: "\<not> has_blank_line (cleanOcrText text)"
proof (cases "text = []")
  case True
  then show ?thesis by (simp add: cleanOcrText_def)
next
  case False
  have "\<not> has_blank_line
      (collapse_blank (collapse_spaces (collapse_punct (scan (strip_noise text)))))"
    by (rule collapse_blank_no_blank_line)
  then have "\<not> has_blank_line
      (trim (collapse_blank (collapse_spaces (collapse_punct (scan (strip_noise text))))))"
    using trim_blank_line by blast
  with False show ?thesis by (simp add: cleanOcrText_def)
qed

lemma has_between_weaken:
  "has_between Q xs \<Longrightarrow> (\<And>b. Q b \<Longrightarrow> Q' b) \<Longrightarrow> has_between Q' xs"
  unfolding has_between_iff by blast

lemma clean_no_other_isolated:
  "\<not> has_between (\<lambda>b. isSpecialSymbol b \<and> b \<noteq> 0x21 \<and> b \<noteq> 0x2C \<and> b \<noteq> 0x2E)
       (cleanOcrText text)"
proof (cases "text = []")
  case True
  then show ?thesis by (simp add: cleanOcrText_def)
next
  case False
  let ?Q = "\<lambda>b. isSpecialSymbol b \<and> b \<noteq> 0x21 \<and> b \<noteq> 0x2C \<and> b \<noteq> 0x2E"
  have rep: "\<not> is_repeatable b" if "?Q b" for b
    using that by (auto simp: is_repeatable_def isSpecialSymbol_def allowed_punct_def)
  have sp: "\<not> is_space b" if "?Q b" for b
    using that by (simp add: special_not_space)
  have "\<not> has_between isSpecialSymbol (scan (strip_noise text))"
    by (simp add: scan_scan_from scan_from_no_isolated)
  then have "\<not> has_between ?Q (scan (strip_noise text))"
    using has_between_weaken [of ?Q _ isSpecialSymbol] by blast
  then have "\<not> has_between ?Q (collapse_punct (scan (strip_noise text)))"
    using collapse_punct_between [of ?Q, OF _ rep] by blast
  then have "\<not> has_between ?Q (collapse_spaces (collapse_punct (scan (strip_noise text))))"
    using collapse_spaces_between [of ?Q, OF _ sp] by blast
  then have "\<not> has_between ?Q
      (collapse_blank (collapse_spaces (collapse_punct (scan (strip_noise text)))))"
    using collapse_blank_between [of ?Q, OF _ sp] by blast
  then have "\<not> has_between ?Q
      (trim (collapse_blank (collapse_spaces (collapse_punct (scan (strip_noise text))))))"
    using trim_between by blast
  with False show ?thesis by (simp add: cleanOcrText_def)
qed

lemma clean_no_noise: "c \<in> set (cleanOcrText text) \<Longrightarrow> \<not> is_noise c"
proof (cases "text = []")
  case True
  assume "c \<in> set (cleanOcrText text)"
  with True show ?thesis by (simp add: cleanOcrText_def)
next
  case False
  assume "c \<in> set (cleanOcrText text)"
  with False have
    "c \<in> set (trim (collapse_blank (collapse_spaces (collapse_punct (scan (strip_noise text))))))"
    by (simp add: cleanOcrText_def)
  then have "c \<in> set (collapse_blank (collapse_spaces (collapse_punct (scan (strip_noise text)))))"
    using set_trim by blast
  then have "c \<in> set (collapse_spaces (collapse_punct (scan (strip_noise text))))"
    using skipping_subset [of collapse_blank blank_rest, OF blank_skips] by blast
  then have "c \<in> set (collapse_punct (scan (strip_noise text)))"
    using skipping_subset [of collapse_spaces space_rest, OF spaces_skips] by blast
  then have "c \<in> set (scan (strip_noise text))"
    using skipping_subset [of collapse_punct punct_rest, OF punct_skips] by blast
  then have "c \<in> set (strip_noise text)"
    using set_scan_from [where p = None] by (auto simp: scan_scan_from)
  then show ?thesis by (simp add: strip_noise_def)
qed

lemma clean_trimmed: "trim (cleanOcrText text) = cleanOcrText text"
  by (simp add: cleanOcrText_def trim_idem) (simp add: trim_def)

text \<open>
  The symbols of the specification are the special symbols of the source and the ASCII
  question mark, which the character class of the source allows.
\<close>

lemma spec_special_symbol_iff:
  "spec_special_symbol b \<longleftrightarrow> isSpecialSymbol b \<or> b = 0x3F"
  by (auto simp: spec_special_symbol_def isSpecialSymbol_def allowed_punct_def
      spec_allowed_punct_def chineseCharPattern_def is_alnum_def is_space_def)

text \<open>
  Claim C3 says that no cleaned text has a symbol that is not an ideograph, a letter, a
  digit or allowed punctuation directly between two ideographs. The punctuation collapse
  runs after the scan: two commas between two ideographs pass the scan, since neither has
  an ideograph on both sides, and are then collapsed to one comma, which stands alone
  between the ideographs in the result; the same happens to two exclamation marks and to
  two full stops. An ASCII question mark between two ideographs is kept by the scan,
  whose character class allows it.
\<close>

theorem cleaned_text_counterexample:
  "cleanOcrText [0x9019, 0x2C, 0x2C, 0x662F] = [0x9019, 0x2C, 0x662F] \<and>
   has_between spec_special_symbol (cleanOcrText [0x9019, 0x2C, 0x2C, 0x662F]) \<and>
   has_isolated_symbol (cleanOcrText [0x9019, 0x2C, 0x2C, 0x662F]) \<and>
   cleanOcrText [0x9019, 0x21, 0x21, 0x662F] = [0x9019, 0x21, 0x662F] \<and>
   has_between spec_special_symbol (cleanOcrText [0x9019, 0x21, 0x21, 0x662F]) \<and>
   cleanOcrText [0x9019, 0x2E, 0x2E, 0x662F] = [0x9019, 0x2E, 0x662F] \<and>
   has_between spec_special_symbol (cleanOcrText [0x9019, 0x2E, 0x2E, 0x662F]) \<and>
   cleanOcrText [0x9019, 0x3F, 0x662F] = [0x9019, 0x3F, 0x662F] \<and>
   has_between spec_special_symbol (cleanOcrText [0x9019, 0x3F, 0x662F])"
  by code_simp

text \<open>
  Claim C3, amended: in the output of \<^verbatim>\<open>cleanOcrText\<close>, for every input, no character
  that is not an ideograph, not a Latin letter or digit, not white space and not one of
  the fullwidth punctuation marks the specification lists stands directly between two
  ideographs, unless it is one of the four ASCII marks \<open>!\<close> \<open>,\<close> \<open>.\<close> \<open>?\<close>; no character
  of the repeatable punctuation is followed by a copy of itself; no two spaces are
  adjacent; and no two line feeds have only white space between them, so there is no
  blank line.
\<close>

theorem cleaned_text_invariant:
  "\<not> has_between
       (\<lambda>b. spec_special_symbol b \<and> b \<noteq> 0x21 \<and> b \<noteq> 0x2C \<and> b \<noteq> 0x2E \<and> b \<noteq> 0x3F)
       (cleanOcrText text) \<and>
   \<not> has_punct_run (cleanOcrText text) \<and>
   \<not> has_space_run (cleanOcrText text) \<and>
   \<not> has_blank_line (cleanOcrText text)"
proof -
  have "\<not> has_between
       (\<lambda>b. spec_special_symbol b \<and> b \<noteq> 0x21 \<and> b \<noteq> 0x2C \<and> b \<noteq> 0x2E \<and> b \<noteq> 0x3F)
       (cleanOcrText text)"
  proof
    assume "has_between
       (\<lambda>b. spec_special_symbol b \<and> b \<noteq> 0x21 \<and> b \<noteq> 0x2C \<and> b \<noteq> 0x2E \<and> b \<noteq> 0x3F)
       (cleanOcrText text)"
    then have "has_between (\<lambda>b. isSpecialSymbol b \<and> b \<noteq> 0x21 \<and> b \<noteq> 0x2C \<and> b \<noteq> 0x2E)
       (cleanOcrText text)"
      by (rule has_between_weaken) (auto simp: spec_special_symbol_iff)
    with clean_no_other_isolated show False by blast
  qed
  with clean_no_punct_run clean_no_space_run clean_no_blank_line show ?thesis
    by (intro conjI)
qed

theorem cleaned_text_invariant_witness:
  "cleanOcrText ([0x20, 0x9019, 0x24, 0x662F, 0x2C, 0x2C, 0x597D, 0x3F, 0x662F, 0x20, 0x20, 0x20] @
      ascii ''a!!'' @ [0x0A, 0x20, 0x0A, 0x0A] @ ascii ''b..'' @ [0x0A]) =
     [0x9019, 0x662F, 0x2C, 0x597D, 0x3F, 0x662F, 0x20] @ ascii ''a!'' @ [0x0A] @ ascii ''b.'' \<and>
   \<not> has_between
       (\<lambda>b. spec_special_symbol b \<and> b \<noteq> 0x21 \<and> b \<noteq> 0x2C \<and> b \<noteq> 0x2E \<and> b \<noteq> 0x3F)
       ([0x9019, 0x662F, 0x2C, 0x597D, 0x3F, 0x662F, 0x20] @ ascii ''a!'' @ [0x0A] @ ascii ''b.'') \<and>
   \<not> has_punct_run
       ([0x9019, 0x662F, 0x2C, 0x597D, 0x3F, 0x662F, 0x20] @ ascii ''a!'' @ [0x0A] @ ascii ''b.'') \<and>
   \<not> has_space_run
       ([0x9019, 0x662F, 0x2C, 0x597D, 0x3F, 0x662F, 0x20] @ ascii ''a!'' @ [0x0A] @ ascii ''b.'') \<and>
   \<not> has_blank_line
       ([0x9019, 0x662F, 0x2C, 0x597D, 0x3F, 0x662F, 0x20] @ ascii ''a!'' @ [0x0A] @ ascii ''b.'')"
proof -
  have e: "cleanOcrText
      ([0x20, 0x9019, 0x24, 0x662F, 0x2C, 0x2C, 0x597D, 0x3F, 0x662F, 0x20, 0x20, 0x20] @
       ascii ''a!!'' @ [0x0A, 0x20, 0x0A, 0x0A] @ ascii ''b..'' @ [0x0A]) =
     [0x9019, 0x662F, 0x2C, 0x597D, 0x3F, 0x662F, 0x20] @ ascii ''a!'' @ [0x0A] @ ascii ''b.''"
    by code_simp
  show ?thesis
    using cleaned_text_invariant
      [of "[0x20, 0x9019, 0x24, 0x662F, 0x2C, 0x2C, 0x597D, 0x3F, 0x662F, 0x20, 0x20, 0x20] @
       ascii ''a!!'' @ [0x0A, 0x20, 0x0A, 0x0A] @ ascii ''b..'' @ [0x0A]"]
    unfolding e by (intro conjI) simp_all
qed

text \<open>
  Claim C2 says that a second pass never changes the result of the first. The comma that
  the first pass leaves between two ideographs, when it collapses a run of commas, is an
  isolated symbol for the scan of the second pass, which removes it.
\<close>

theorem clean_twice_counterexample:
  "cleanOcrText (cleanOcrText [0x9019, 0x2C, 0x2C, 0x662F]) \<noteq>
     cleanOcrText [0x9019, 0x2C, 0x2C, 0x662F] \<and>
   cleanOcrText [0x9019, 0x2C, 0x2C, 0x662F] = [0x9019, 0x2C, 0x662F] \<and>
   cleanOcrText (cleanOcrText [0x9019, 0x2C, 0x2C, 0x662F]) = [0x9019, 0x662F]"
  by code_simp

text \<open>
  Claim C2, amended: for every input whose cleaned text has no special symbol directly
  between two ideographs, cleaning the cleaned text again returns it unchanged. (A cleaned
  text never has a noise character, a run of repeatable punctuation, a run of spaces, a
  blank line or white space at either end, so the isolated symbol is the only pattern
  that a second pass can still find.)
\<close>

theorem clean_idempotent_without_isolated_symbol:
  assumes "\<not> has_isolated_symbol (cleanOcrText x)"
  shows "cleanOcrText (cleanOcrText x) = cleanOcrText x"
proof (cases "cleanOcrText x = []")
  case True
  then show ?thesis by (simp add: cleanOcrText_def)
next
  case False
  let ?y = "cleanOcrText x"
  have "strip_noise ?y = ?y"
    using clean_no_noise [of _ x] by (simp add: strip_noise_def)
  moreover have "scan ?y = ?y"
    using assms scan_from_id [where p = None and xs = ?y]
    by (simp add: scan_scan_from has_isolated_symbol_def)
  moreover have "collapse_punct ?y = ?y"
    by (rule collapse_punct_id) (rule clean_no_punct_run)
  moreover have "collapse_spaces ?y = ?y"
    by (rule collapse_spaces_id) (rule clean_no_space_run)
  moreover have "collapse_blank ?y = ?y"
    by (rule collapse_blank_id) (rule clean_no_blank_line)
  moreover have "trim ?y = ?y" by (rule clean_trimmed)
  ultimately have
    "trim (collapse_blank (collapse_spaces (collapse_punct (scan (strip_noise ?y))))) = ?y"
    by simp
  with False show ?thesis by (subst cleanOcrText_def) simp
qed

theorem clean_idempotent_without_isolated_symbol_witness:
  "\<not> has_isolated_symbol (cleanOcrText
      [0x4ECA, 0x20, 0x7C, 0x20, 0x5929, 0x5F, 0x5929, 0x20, 0x5E, 0x20, 0x6C23, 0x20,
       0x771F, 0x20, 0x597D, 0x21, 0x21, 0x21]) \<and>
   cleanOcrText (cleanOcrText
      [0x4ECA, 0x20, 0x7C, 0x20, 0x5929, 0x5F, 0x5929, 0x20, 0x5E, 0x20, 0x6C23, 0x20,
       0x771F, 0x20, 0x597D, 0x21, 0x21, 0x21]) =
   [0x4ECA, 0x20, 0x5929, 0x5929, 0x20, 0x6C23, 0x20, 0x771F, 0x20, 0x597D, 0x21]"
proof -
  let ?x = "[0x4ECA, 0x20, 0x7C, 0x20, 0x5929, 0x5F, 0x5929, 0x20, 0x5E, 0x20, 0x6C23, 0x20,
       0x771F, 0x20, 0x597D, 0x21, 0x21, 0x21] :: jsstring"
  have h: "\<not> has_isolated_symbol (cleanOcrText ?x)" by code_simp
  have e: "cleanOcrText ?x =
    [0x4ECA, 0x20, 0x5929, 0x5929, 0x20, 0x6C23, 0x20, 0x771F, 0x20, 0x597D, 0x21]"
    by code_simp
  from clean_idempotent_without_isolated_symbol [OF h] h e show ?thesis by simp
qed

section \<open>Properties of the ImageNormalizer\<close>

lemma length_data_set [simp]: "length (data_set data j v) = length data"
  by (simp add: data_set_def)

lemma nth_data_set:
  "j < length data \<Longrightarrow> data_set data j v ! i = (if i = j then to_uint8_clamp v else data ! i)"
  by (simp add: data_set_def nth_list_update)

lemma data_get_data_set:
  "i \<noteq> j \<Longrightarrow> data_get (data_set data j v) i = data_get data i"
  by (simp add: data_get_def data_set_def nth_list_update)

lemma contrast_loop_pixels:
  "length data = 4 * n \<Longrightarrow> k \<le> n \<Longrightarrow> m = n - k \<Longrightarrow>
   length (contrast_loop data (4 * k)) = length data \<and>
   (\<forall>p<n. \<forall>c<4. contrast_loop data (4 * k) ! (4 * p + c) =
      (if p < k \<or> c = 3 then data ! (4 * p + c) else to_uint8_clamp (pixel_color data p)))"
proof (induction m arbitrary: data k)
  case 0
  then have "\<not> 4 * k < length data" by simp
  then have "contrast_loop data (4 * k) = data" by (subst contrast_loop.simps) simp
  with 0 show ?case by auto
next
  case (Suc m)
  then have k: "k < n" by simp
  define color where "color = pixel_color data k"
  define data' where
    "data' = data_set (data_set (data_set data (4 * k) color) (4 * k + 1) color) (4 * k + 2) color"
  have len: "length data' = 4 * n" using Suc.prems by (simp add: data'_def)
  have "contrast_loop data (4 * k) = contrast_loop data' (4 * k + 4)"
    using k Suc.prems(1)
    by (subst contrast_loop.simps) (simp add: Let_def data'_def color_def pixel_color_def)
  moreover have "4 * k + 4 = 4 * (k + 1)" by simp
  ultimately have unfold: "contrast_loop data (4 * k) = contrast_loop data' (4 * (k + 1))"
    by (simp only:)
  have IH: "length (contrast_loop data' (4 * (k + 1))) = length data' \<and>
    (\<forall>p<n. \<forall>c<4. contrast_loop data' (4 * (k + 1)) ! (4 * p + c) =
      (if p < k + 1 \<or> c = 3 then data' ! (4 * p + c) else to_uint8_clamp (pixel_color data' p)))"
    using Suc.IH [OF len, of "k + 1"] k Suc.prems by simp
  have nth': "data' ! (4 * p + c) =
      (if p = k \<and> c \<noteq> 3 then to_uint8_clamp color else data ! (4 * p + c))"
    if "p < n" "c < 4" for p c
  proof -
    have "4 * p + c < length data" using that Suc.prems(1) by simp
    moreover have "4 * k + 2 < length data" using k Suc.prems(1) by simp
    moreover have "4 * p + c = 4 * k \<longleftrightarrow> p = k \<and> c = 0"
      "4 * p + c = 4 * k + 1 \<longleftrightarrow> p = k \<and> c = 1"
      "4 * p + c = 4 * k + 2 \<longleftrightarrow> p = k \<and> c = 2"
      using that(2) by presburger+
    ultimately show ?thesis
      using that(2) by (simp only: data'_def nth_data_set length_data_set) auto
  qed
  have col': "pixel_color data' p = pixel_color data p" if "k < p" for p
    using that by (simp add: pixel_color_def data'_def data_get_data_set)
  show ?case
  proof (intro conjI allI impI)
    show "length (contrast_loop data (4 * k)) = length data"
      using IH len Suc.prems(1) unfold by simp
  next
    fix p c :: nat assume pc: "p < n" "c < 4"
    from IH pc have eq: "contrast_loop data' (4 * (k + 1)) ! (4 * p + c) =
      (if p < k + 1 \<or> c = 3 then data' ! (4 * p + c) else to_uint8_clamp (pixel_color data' p))"
      by blast
    consider "p < k" | "p = k" | "k < p" by linarith
    then show "contrast_loop data (4 * k) ! (4 * p + c) =
      (if p < k \<or> c = 3 then data ! (4 * p + c) else to_uint8_clamp (pixel_color data p))"
    proof cases
      case 1
      then show ?thesis using eq nth' [OF pc] unfold by (cases "c = 3") simp_all
    next
      case 2
      then show ?thesis using eq nth' [OF pc] unfold by (cases "c = 3") (simp_all add: color_def)
    next
      case 3
      then show ?thesis using eq nth' [OF pc] col' [OF 3] unfold by (cases "c = 3") simp_all
    qed
  qed
qed


text \<open>The store into the byte array rounds to a nearest byte.\<close>

lemma unat_byte_of_int:
  "0 \<le> f \<Longrightarrow> f \<le> 255 \<Longrightarrow> rat_of_nat (unat (of_int f :: 8 word)) = of_int f"
proof -
  assume a: "0 \<le> f" "f \<le> 255"
  then have "uint (of_int f :: 8 word) = f"
    by (simp add: uint_word_of_int take_bit_int_eq_self)
  then have "int (unat (of_int f :: 8 word)) = f" by simp
  then have "rat_of_int (int (unat (of_int f :: 8 word))) = rat_of_int f" by simp
  then show ?thesis by simp
qed

lemma to_uint8_clamp_nearest:
  assumes "0 \<le> x" and "x \<le> 255"
  shows "\<bar>rat_of_nat (unat (to_uint8_clamp (Some x))) - x\<bar> \<le> 1 / 2"
proof -
  let ?f = "\<lfloor>x\<rfloor>"
  have f0: "0 \<le> ?f" using assms(1) by simp
  have f255: "?f \<le> 255" using assms(2) by (simp add: floor_le_iff)
  have lo: "of_int ?f \<le> x" by simp
  have hi: "x < of_int ?f + 1" by linarith
  have cl: "min (max x 0) 255 = x" using assms by simp
  consider "x < of_int ?f + 1 / 2" | "of_int ?f + 1 / 2 < x" | "x = of_int ?f + 1 / 2"
    by linarith
  then show ?thesis
  proof cases
    case 1
    then have "to_uint8_clamp (Some x) = of_int ?f"
      by (simp add: to_uint8_clamp_def cl Let_def)
    with unat_byte_of_int [OF f0 f255] lo 1 show ?thesis by simp
  next
    case 2
    then have "to_uint8_clamp (Some x) = of_int (?f + 1)"
      by (simp add: to_uint8_clamp_def cl Let_def)
    moreover have "?f + 1 \<le> 255"
    proof -
      have "rat_of_int ?f < 255" using 2 assms(2) by linarith
      then have "?f < 255" by linarith
      then show ?thesis by simp
    qed
    moreover have "0 \<le> ?f + 1" using f0 by simp
    ultimately have "rat_of_nat (unat (to_uint8_clamp (Some x))) = of_int (?f + 1)"
      using unat_byte_of_int [of "?f + 1"] by simp
    with hi 2 show ?thesis by simp
  next
    case 3
    have "rat_of_int ?f < 255" using 3 assms(2) by linarith
    then have "?f < 255" by linarith
    then have f1: "?f + 1 \<le> 255" "0 \<le> ?f + 1" using f0 by simp_all
    from 3 have "to_uint8_clamp (Some x) = (if even ?f then of_int ?f else of_int (?f + 1))"
      by (simp add: to_uint8_clamp_def cl Let_def)
    then have "rat_of_nat (unat (to_uint8_clamp (Some x))) =
        (if even ?f then of_int ?f else of_int (?f + 1))"
      using unat_byte_of_int [OF f0 f255] unat_byte_of_int [OF f1(2) f1(1)] by simp
    with 3 show ?thesis by (simp split: if_splits)
  qed
qed

text \<open>
  Claim C8: the contrast loop takes, for every pixel of a buffer of whole pixels (the
  length of \<^verbatim>\<open>imageData.data\<close> is four times the number of pixels), the unweighted
  average of the three colour channels; the new value is \<open>max 0 (average - 40)\<close> when the
  average is below 120 and \<open>min 255 (average + 40)\<close> otherwise; that one value is written
  to the three colour channels (the store into the byte array converts it to a byte, which
  is a nearest integer of the value), and the alpha channel is unchanged.
\<close>

theorem contrast_transform:
  assumes "length data = 4 * n" and "p < n"
  shows
    "let avg = (of_nat (unat (data ! (4 * p))) + of_nat (unat (data ! (4 * p + 1))) +
                of_nat (unat (data ! (4 * p + 2)))) / 3;
         color = (if avg < 120 then max 0 (avg - 40) else min 255 (avg + 40));
         out = contrast_loop data 0
     in out ! (4 * p) = to_uint8_clamp (Some color) \<and>
        out ! (4 * p + 1) = to_uint8_clamp (Some color) \<and>
        out ! (4 * p + 2) = to_uint8_clamp (Some color) \<and>
        out ! (4 * p + 3) = data ! (4 * p + 3) \<and>
        length out = length data \<and>
        \<bar>of_nat (unat (out ! (4 * p))) - color\<bar> \<le> 1 / 2"
proof -
  define avg :: rat where
    "avg = (of_nat (unat (data ! (4 * p))) + of_nat (unat (data ! (4 * p + 1))) +
            of_nat (unat (data ! (4 * p + 2)))) / 3"
  define color where "color = (if avg < 120 then max 0 (avg - 40) else min 255 (avg + 40))"
  have inv: "length (contrast_loop data (4 * 0)) = length data \<and>
    (\<forall>p<n. \<forall>c<4. contrast_loop data (4 * 0) ! (4 * p + c) =
      (if p < 0 \<or> c = 3 then data ! (4 * p + c) else to_uint8_clamp (pixel_color data p)))"
    using contrast_loop_pixels [OF assms(1), of 0 n] by simp
  then have len: "length (contrast_loop data 0) = length data" by simp
  have "4 * p + 2 < length data" using assms by simp
  then have col: "pixel_color data p = Some color"
    by (simp add: pixel_color_def data_get_def average3_def contrast_color_def avg_def
        color_def)
  from inv assms(2) have ch: "contrast_loop data 0 ! (4 * p + c) =
      (if c = 3 then data ! (4 * p + c) else to_uint8_clamp (pixel_color data p))"
    if "c < 4" for c
    using that by simp
  have o0: "contrast_loop data 0 ! (4 * p) = to_uint8_clamp (Some color)"
    using ch [of 0] col by simp
  have o1: "contrast_loop data 0 ! (4 * p + 1) = to_uint8_clamp (Some color)"
    using ch [of 1] col by simp
  have o2: "contrast_loop data 0 ! (4 * p + 2) = to_uint8_clamp (Some color)"
    using ch [of 2] col by simp
  have o3: "contrast_loop data 0 ! (4 * p + 3) = data ! (4 * p + 3)"
    using ch [of 3] by simp
  have "0 \<le> color" "color \<le> 255"
    by (simp_all add: color_def)
  then have "\<bar>rat_of_nat (unat (to_uint8_clamp (Some color))) - color\<bar> \<le> 1 / 2"
    by (rule to_uint8_clamp_nearest)
  then have near: "\<bar>rat_of_nat (unat (contrast_loop data 0 ! (4 * p))) - color\<bar> \<le> 1 / 2"
    by (simp only: o0)
  from o0 o1 o2 o3 len near show ?thesis
    unfolding Let_def avg_def [symmetric] color_def [symmetric] by (intro conjI)
qed

theorem contrast_transform_witness:
  "length [100, 100, 101, 7, 0, 10, 20, 9, 250, 250, 250, 1 :: 8 word] = 4 * 3 \<and>
   (0 :: nat) < 3 \<and>
   (100 + 100 + 101) / 3 < (120 :: rat) \<and>
   to_uint8_clamp (Some (max 0 ((100 + 100 + 101) / 3 - 40))) = 60 \<and>
   contrast_loop [100, 100, 101, 7, 0, 10, 20, 9, 250, 250, 250, 1] 0 =
     [60, 60, 60, 7, 0, 0, 0, 9, 255, 255, 255, 1]"
proof -
  have out: "contrast_loop [100, 100, 101, 7, 0, 10, 20, 9, 250, 250, 250, 1] 0 =
     [60, 60, 60, 7, 0, 0, 0, 9, 255, 255, 255, 1]"
    by code_simp
  have l: "length [100, 100, 101, 7, 0, 10, 20, 9, 250, 250, 250, 1 :: 8 word] = 4 * 3"
    by simp
  have c: "to_uint8_clamp (Some (max 0 ((100 + 100 + 101) / 3 - 40))) = 60"
    by code_simp
  show ?thesis
    using contrast_transform [OF l, of 0] out c by simp
qed

section \<open>Properties of the cloud backend\<close>

lemma messages_distinct:
  "rate_limited_message \<noteq> invalid_image_message"
  "generic_prefix @ x \<noteq> rate_limited_message"
  "generic_prefix @ x \<noteq> invalid_image_message"
  by (simp_all add: rate_limited_message_def invalid_image_message_def generic_prefix_def)

text \<open>The two failures raised before the service is called fall to the generic branch.\<close>

lemma local_failures_generic:
  "catch_block (Error (Some api_key_missing)) = generic_prefix @ api_key_missing"
  "catch_block (Error (Some bad_image_data)) = generic_prefix @ bad_image_data"
  by code_simp+

text \<open>
  Claim C9 says that a malformed-image failure is surfaced by the message about an
  incompatible or damaged image. The payload check of \<^verbatim>\<open>performGeminiOCR\<close> itself throws
  inside the \<^verbatim>\<open>try\<close> block when the image data has fewer than 10 characters; its message
  contains none of the strings the \<^verbatim>\<open>catch\<close> block looks for, so the failure is
  surfaced by the generic message, which carries the text of the payload check.
\<close>

theorem gemini_malformed_image_counterexample:
  "extract_image (ascii ''data:image/jpeg;base64,AAAA'') = (ascii ''image/jpeg'', ascii ''AAAA'') \<and>
   performGeminiOCR (Some (ascii ''k'')) (\<lambda>ai mime d. Inr None)
     (ascii ''data:image/jpeg;base64,AAAA'') = Inl (generic_prefix @ bad_image_data) \<and>
   performGeminiOCR (Some (ascii ''k'')) (\<lambda>ai mime d. Inr None)
     (ascii ''data:image/jpeg;base64,AAAA'') \<noteq> Inl invalid_image_message"
  by code_simp

text \<open>
  Claim C9, amended: \<^verbatim>\<open>performGeminiOCR\<close> rejects with one of three messages, which
  differ from each other. When the recognition service fails, it is the rate-limit
  message if the message of the failure contains \<open>429\<close>; otherwise the message about an
  incompatible or damaged image that asks to take the photo again, if the message of the
  failure contains \<open>INVALID_ARGUMENT\<close> or \<open>MIME type\<close>; otherwise the generic message,
  which carries the message of the failure, or "unknown error" when the failure has no
  message. The failures that \<^verbatim>\<open>performGeminiOCR\<close> raises before it calls the service
  are surfaced by the generic message too: a missing API key, and image data of fewer
  than 10 characters, whose own request to capture again is carried after the generic
  prefix. When nothing fails, the result is the trimmed text of the response, or the
  sentinel when that is missing or empty.
\<close>

theorem gemini_failure_categories:
  "performGeminiOCR env_key generateContent base64Image =
     (case env_key of
        None \<Rightarrow> Inl (generic_prefix @ api_key_missing)
      | Some apiKey \<Rightarrow>
          if apiKey = [] then Inl (generic_prefix @ api_key_missing)
          else if length (snd (extract_image base64Image)) < 10
          then Inl (generic_prefix @ bad_image_data)
          else
            (case generateContent apiKey (fst (extract_image base64Image))
                    (snd (extract_image base64Image)) of
               Inl e \<Rightarrow>
                 Inl (if message_includes e (ascii ''429'') then rate_limited_message
                      else if message_includes e (ascii ''INVALID_ARGUMENT'') \<or>
                              message_includes e (ascii ''MIME type'')
                      then invalid_image_message
                      else generic_prefix @ message_or_unknown e)
             | Inr None \<Rightarrow> Inr no_text
             | Inr (Some t) \<Rightarrow> Inr (if trim t = [] then no_text else trim t))) \<and>
   rate_limited_message \<noteq> invalid_image_message \<and>
   generic_prefix @ x \<noteq> rate_limited_message \<and>
   generic_prefix @ x \<noteq> invalid_image_message"
proof -
  have "performGeminiOCR env_key generateContent base64Image =
     (case env_key of
        None \<Rightarrow> Inl (generic_prefix @ api_key_missing)
      | Some apiKey \<Rightarrow>
          if apiKey = [] then Inl (generic_prefix @ api_key_missing)
          else if length (snd (extract_image base64Image)) < 10
          then Inl (generic_prefix @ bad_image_data)
          else
            (case generateContent apiKey (fst (extract_image base64Image))
                    (snd (extract_image base64Image)) of
               Inl e \<Rightarrow>
                 Inl (if message_includes e (ascii ''429'') then rate_limited_message
                      else if message_includes e (ascii ''INVALID_ARGUMENT'') \<or>
                              message_includes e (ascii ''MIME type'')
                      then invalid_image_message
                      else generic_prefix @ message_or_unknown e)
             | Inr None \<Rightarrow> Inr no_text
             | Inr (Some t) \<Rightarrow> Inr (if trim t = [] then no_text else trim t)))"
  proof (cases env_key)
    case None
    then show ?thesis
      by (simp add: performGeminiOCR_def try_block_def getAI_def local_failures_generic)
  next
    case (Some apiKey)
    show ?thesis
    proof (cases "apiKey = []")
      case True
      with Some show ?thesis
        by (simp add: performGeminiOCR_def try_block_def getAI_def local_failures_generic)
    next
      case False
      obtain mimeType imageData where ex: "extract_image base64Image = (mimeType, imageData)"
        by (cases "extract_image base64Image")
      show ?thesis
      proof (cases "length imageData < 10")
        case True
        then have "imageData = [] \<or> length imageData < 10" by simp
        with Some False ex True show ?thesis
          by (simp add: performGeminiOCR_def try_block_def getAI_def local_failures_generic)
      next
        case long: False
        then have "\<not> (imageData = [] \<or> length imageData < 10)" by auto
        with Some False ex long show ?thesis
          by (simp add: performGeminiOCR_def try_block_def getAI_def catch_block_def
              split: sum.splits option.splits)
      qed
    qed
  qed
  then show ?thesis using messages_distinct by (intro conjI)
qed

theorem gemini_failure_categories_witness:
  "performGeminiOCR (Some (ascii ''k''))
     (\<lambda>ai mime d. Inl (Error (Some (ascii ''got 429 Too Many Requests''))))
     (ascii ''data:image/jpeg;base64,AAAAAAAAAAAA'') = Inl rate_limited_message \<and>
   performGeminiOCR (Some (ascii ''k''))
     (\<lambda>ai mime d. Inl (Error (Some (ascii ''400 INVALID_ARGUMENT''))))
     (ascii ''data:image/jpeg;base64,AAAAAAAAAAAA'') = Inl invalid_image_message \<and>
   performGeminiOCR (Some (ascii ''k''))
     (\<lambda>ai mime d. Inl (Error (Some (ascii ''fetch failed''))))
     (ascii ''data:image/jpeg;base64,AAAAAAAAAAAA'') =
     Inl (generic_prefix @ ascii ''fetch failed'') \<and>
   performGeminiOCR (Some (ascii ''k'')) (\<lambda>ai mime d. Inl (Error None))
     (ascii ''data:image/jpeg;base64,AAAAAAAAAAAA'') = Inl (generic_prefix @ unknown_error) \<and>
   performGeminiOCR None (\<lambda>ai mime d. Inr None)
     (ascii ''data:image/jpeg;base64,AAAAAAAAAAAA'') = Inl (generic_prefix @ api_key_missing) \<and>
   performGeminiOCR (Some (ascii ''k'')) (\<lambda>ai mime d. Inr None)
     (ascii ''data:image/jpeg;base64,AAAA'') = Inl (generic_prefix @ bad_image_data) \<and>
   performGeminiOCR (Some (ascii ''k'')) (\<lambda>ai mime d. Inr (Some (ascii '' hi '')))
     (ascii ''data:image/jpeg;base64,AAAAAAAAAAAA'') = Inr (ascii ''hi'')"
proof -
  let ?img = "ascii ''data:image/jpeg;base64,AAAAAAAAAAAA''"
  let ?k = "Some (ascii ''k'')"
  have r1: "performGeminiOCR ?k
      (\<lambda>ai mime d. Inl (Error (Some (ascii ''got 429 Too Many Requests'')))) ?img =
      Inl rate_limited_message"
    by code_simp
  have r2: "performGeminiOCR ?k
      (\<lambda>ai mime d. Inl (Error (Some (ascii ''400 INVALID_ARGUMENT'')))) ?img =
      Inl invalid_image_message"
    by code_simp
  have r3: "performGeminiOCR ?k (\<lambda>ai mime d. Inl (Error (Some (ascii ''fetch failed'')))) ?img =
      Inl (generic_prefix @ ascii ''fetch failed'')"
    by code_simp
  have r4: "performGeminiOCR ?k (\<lambda>ai mime d. Inl (Error None)) ?img =
      Inl (generic_prefix @ unknown_error)"
    by code_simp
  have r5: "performGeminiOCR None (\<lambda>ai mime d. Inr None) ?img =
      Inl (generic_prefix @ api_key_missing)"
    by code_simp
  have r6: "performGeminiOCR ?k (\<lambda>ai mime d. Inr None) (ascii ''data:image/jpeg;base64,AAAA'') =
      Inl (generic_prefix @ bad_image_data)"
    by code_simp
  have r7: "performGeminiOCR ?k (\<lambda>ai mime d. Inr (Some (ascii '' hi ''))) ?img =
      Inr (ascii ''hi'')"
    by code_simp
  from gemini_failure_categories
      [of ?k "\<lambda>ai mime d. Inl (Error (Some (ascii ''got 429 Too Many Requests'')))" ?img "[]"]
    r1 r2 r3 r4 r5 r6 r7
  show ?thesis by (intro conjI)
qed

end
